theory Spec2Isabelle
  imports Complex_Main "HOL-Library.Log_Nat"
begin

section \<open>float64 arithmetic\<close>

text \<open>
  The coordinates of geostore.go are Go \<^verbatim>\<open>float64\<close> values. A finite float64 is modelled
  as the real number it denotes, and every arithmetic operation of the source rounds its
  exact result to the nearest float64, ties to the even mantissa (IEEE 754 binary64, the
  arithmetic Go prescribes): 53 bits of mantissa, least exponent \<open>-1074\<close>.
  NaN, the infinities and results of magnitude \<open>2^1024\<close> and more are outside the model;
  comparisons of finite values are the comparisons of the reals. Go allows a compiler to
  fuse \<open>x * y + z\<close> into one rounding; the model rounds the product and the sum. On
  the cells of the grid and in the counterexample to claim C7 both roundings are exact,
  so that the fused result is the same there.
\<close>

type_synonym float64 = real

definition ilog2 :: "real \<Rightarrow> int" where
  \<comment> \<open>the binary exponent of a non-zero \<open>x\<close>: \<open>2 powi ilog2 x \<le> \<bar>x\<bar> < 2 powi (ilog2 x + 1)\<close>\<close>
  "ilog2 x = (if 1 \<le> \<bar>x\<bar> then bitlen \<lfloor>\<bar>x\<bar>\<rfloor> - 1 else - bitlen (\<lceil>1 / \<bar>x\<bar>\<rceil> - 1))"

definition rne :: "real \<Rightarrow> int" where
  \<comment> \<open>round to the nearest integer, a tie to the even one\<close>
  "rne q = (let f = \<lfloor>q\<rfloor>; d = q - of_int f in
     if d < 1 / 2 then f else if 1 / 2 < d then f + 1 else if even f then f else f + 1)"

definition round64 :: "real \<Rightarrow> float64" where
  "round64 x = (if x = 0 then 0 else
     let e = max (ilog2 x - 52) (- 1074) in of_int (rne (x / 2 powi e)) * 2 powi e)"

definition fadd :: "float64 \<Rightarrow> float64 \<Rightarrow> float64" where
  "fadd a b = round64 (a + b)"

definition fsub :: "float64 \<Rightarrow> float64 \<Rightarrow> float64" where
  "fsub a b = round64 (a - b)"

definition fmul :: "float64 \<Rightarrow> float64 \<Rightarrow> float64" where
  "fmul a b = round64 (a * b)"

definition fdiv :: "float64 \<Rightarrow> float64 \<Rightarrow> float64" where
  "fdiv a b = round64 (a / b)"

section \<open>Constants and data\<close>

definition MAXLAT :: float64 where "MAXLAT = 90"
definition MINLAT :: float64 where "MINLAT = - 90"
definition MAXLNG :: float64 where "MAXLNG = 180"
definition MINLNG :: float64 where "MINLNG = - 180"
definition MAXDEPTH :: nat where "MAXDEPTH = 10"

definition CODES :: "string list list" where
  "CODES = [[''0'', ''1'', ''2'', ''3''],
            [''4'', ''5'', ''6'', ''7''],
            [''8'', ''9'', ''A'', ''B''],
            [''C'', ''D'', ''E'', ''F'']]"

record LatLng =
  Lat :: float64
  Lng :: float64

record LatLngBounds =
  NE :: LatLng
  SW :: LatLng

type_synonym GeoBoxTag = string

record Geohasher =
  hash :: string
  Box :: LatLngBounds
  Point :: LatLng

text \<open>
  The errors of the package: the four messages of its \<^verbatim>\<open>Error\<close> type, the
  \<^verbatim>\<open>*strconv.NumError\<close> of \<^verbatim>\<open>strconv.ParseInt\<close>, and the run-time panic of an
  array index out of range.
  \<^item> \<open>PointOutsideBox\<close>: "Error in Geohasher.Descend(). Point is outside Box."
  \<^item> \<open>NoMatchingSubBox\<close>: "Could not find matching sub_box for Point in Box"
  \<^item> \<open>DifferentDepths\<close>: "geostore error: FindGeoBoxBounds error; viewbounds geoboxes at
    different depths."
  \<^item> \<open>EmptyTag\<close>: "geostore error: empty tag passed to GetNorthBox()" (GetNorthBoxTag and
    GetEastBoxTag return the same message)
\<close>

datatype error =
    PointOutsideBox
  | NoMatchingSubBox
  | DifferentDepths
  | EmptyTag
  | NumError char
  | IndexOutOfRange nat

definition worldBox :: LatLngBounds where
  \<comment> \<open>the box every Geohasher of the package starts from\<close>
  "worldBox = \<lparr>NE = \<lparr>Lat = MAXLAT, Lng = MAXLNG\<rparr>, SW = \<lparr>Lat = MINLAT, Lng = MINLNG\<rparr>\<rparr>"

subsection \<open>BOXSIZES and init\<close>

fun init_BOXSIZES :: "nat \<Rightarrow> LatLng list" where
  \<comment> \<open>the first \<open>n\<close> entries, as the loop of \<^verbatim>\<open>init\<close> fills them\<close>
  "init_BOXSIZES 0 = []"
| "init_BOXSIZES (Suc i) =
     (let bs = init_BOXSIZES i in
      bs @ [if i = 0 then \<lparr>Lat = MAXLAT - MINLAT, Lng = MAXLNG - MINLNG\<rparr>
            else \<lparr>Lat = fdiv (Lat (bs ! (i - 1))) 4, Lng = fdiv (Lng (bs ! (i - 1))) 4\<rparr>])"

definition BOXSIZES :: "LatLng list" where
  "BOXSIZES = init_BOXSIZES (MAXDEPTH + 1)"

definition BOXSIZES_at :: "nat \<Rightarrow> error + LatLng" where
  \<comment> \<open>\<^verbatim>\<open>BOXSIZES[k]\<close>: Go panics when the index is outside the array\<close>
  "BOXSIZES_at k = (if k < length BOXSIZES then Inr (BOXSIZES ! k) else Inl (IndexOutOfRange k))"

section \<open>The Geohasher\<close>

definition GetHash :: "Geohasher \<Rightarrow> string" where
  "GetHash g = hash g"

definition GetDepth :: "Geohasher \<Rightarrow> nat" where
  "GetDepth g = length (hash g)"

definition Within :: "LatLng \<Rightarrow> LatLngBounds \<Rightarrow> bool" where
  "Within p b =
     (if Lat p < Lat (SW b) \<or> Lng p < Lng (SW b) \<or> Lat p > Lat (NE b) \<or> Lng p > Lng (NE b)
      then False else True)"

definition sub_box :: "LatLngBounds \<Rightarrow> float64 \<Rightarrow> float64 \<Rightarrow> nat \<Rightarrow> nat \<Rightarrow> LatLngBounds" where
  \<comment> \<open>the \<^verbatim>\<open>sub_box\<close> literal of Descend, for row \<open>i\<close> and column \<open>j\<close>\<close>
  "sub_box b latSpacing lngSpacing i j =
     \<lparr>NE = \<lparr>Lat = fadd (Lat (SW b)) (fmul (real (i + 1)) latSpacing),
             Lng = fadd (Lng (SW b)) (fmul (real (j + 1)) lngSpacing)\<rparr>,
      SW = \<lparr>Lat = fadd (Lat (SW b)) (fmul (real i) latSpacing),
             Lng = fadd (Lng (SW b)) (fmul (real j) lngSpacing)\<rparr>\<rparr>"

fun inner_loop ::
  "float64 \<Rightarrow> float64 \<Rightarrow> nat \<Rightarrow> nat list \<Rightarrow> string \<times> Geohasher \<Rightarrow> string \<times> Geohasher" where
  \<comment> \<open>\<^verbatim>\<open>for j := 0; j < 4; j++\<close>, over the values of \<open>j\<close> still to come; the state is the
      variable \<^verbatim>\<open>code\<close> and the Geohasher\<close>
  "inner_loop latSpacing lngSpacing i [] (code, g) = (code, g)"
| "inner_loop latSpacing lngSpacing i (j # js) (code, g) =
     (let sb = sub_box (Box g) latSpacing lngSpacing i j in
      if Within (Point g) sb
      then (CODES ! i ! j, g\<lparr>hash := hash g @ CODES ! i ! j, Box := sb\<rparr>)
      else inner_loop latSpacing lngSpacing i js (code, g))"

fun outer_loop ::
  "float64 \<Rightarrow> float64 \<Rightarrow> nat list \<Rightarrow> string \<times> Geohasher \<Rightarrow> string \<times> Geohasher" where
  \<comment> \<open>\<^verbatim>\<open>for i := 0; i < 4; i++\<close>, left as soon as \<^verbatim>\<open>code\<close> is no longer "X"\<close>
  "outer_loop latSpacing lngSpacing [] (code, g) = (code, g)"
| "outer_loop latSpacing lngSpacing (i # is) (code, g) =
     (case inner_loop latSpacing lngSpacing i [0, 1, 2, 3] (code, g) of
        (code', g') \<Rightarrow>
          if code' \<noteq> ''X'' then (code', g')
          else outer_loop latSpacing lngSpacing is (code', g'))"

definition Descend :: "Geohasher \<Rightarrow> error + Geohasher" where
  "Descend g =
     (if \<not> Within (Point g) (Box g) then Inl PointOutsideBox
      else
        let latSpacing = fdiv \<bar>fsub (Lat (NE (Box g))) (Lat (SW (Box g)))\<bar> 4;
            lngSpacing = fdiv \<bar>fsub (Lng (NE (Box g))) (Lng (SW (Box g)))\<bar> 4
        in case outer_loop latSpacing lngSpacing [0, 1, 2, 3] (''X'', g) of
             (code, g') \<Rightarrow> if code = ''X'' then Inl NoMatchingSubBox else Inr g')"

section \<open>Tag generation\<close>

text \<open>
  Modelled from the spec: the implementation of the interface \<^verbatim>\<open>Locatable\<close>. The
  source declares its five methods and implements none of them; the caller's type does.
  An entity is a location and the ordered list of tags attached to it: \<^verbatim>\<open>GetLocation\<close>
  reads the location, \<^verbatim>\<open>ClearGeoBoxTags\<close> empties the list and \<^verbatim>\<open>AddGeoBoxTag\<close>
  attaches one more tag at its end.
\<close>

record Locatable =
  Location :: LatLng
  GeoBoxTags :: "GeoBoxTag list"

definition SetLocation :: "LatLng \<Rightarrow> Locatable \<Rightarrow> Locatable" where
  "SetLocation p l = l\<lparr>Location := p\<rparr>"

definition GetLocation :: "Locatable \<Rightarrow> LatLng" where
  "GetLocation l = Location l"

definition GetGeoBoxTags :: "Locatable \<Rightarrow> GeoBoxTag list" where
  "GetGeoBoxTags l = GeoBoxTags l"

definition AddGeoBoxTag :: "GeoBoxTag \<Rightarrow> Locatable \<Rightarrow> Locatable" where
  "AddGeoBoxTag t l = l\<lparr>GeoBoxTags := GeoBoxTags l @ [t]\<rparr>"

definition ClearGeoBoxTags :: "Locatable \<Rightarrow> Locatable" where
  "ClearGeoBoxTags l = l\<lparr>GeoBoxTags := []\<rparr>"

function generate_loop :: "Geohasher \<Rightarrow> Locatable \<Rightarrow> Locatable \<times> error option" where
  \<comment> \<open>\<^verbatim>\<open>for g.GetDepth() < MAXDEPTH\<close>; the result is the entity as the call leaves it and
      the error returned, if any\<close>
  "generate_loop g l =
     (if GetDepth g < MAXDEPTH then
        (case Descend g of
           Inl err \<Rightarrow> (l, Some err)
         | Inr g' \<Rightarrow> generate_loop g' (AddGeoBoxTag (hash g') l))
      else (l, None))"
  by pat_completeness auto

definition GenerateGeoBoxTags :: "Locatable \<Rightarrow> Locatable \<times> error option" where
  "GenerateGeoBoxTags l =
     (let g = \<lparr>hash = [], Box = worldBox, Point = GetLocation l\<rparr>
      in generate_loop g (ClearGeoBoxTags l))"

section \<open>Neighbouring tags\<close>

definition ParseInt16 :: "char \<Rightarrow> error + int" where
  \<comment> \<open>\<^verbatim>\<open>strconv.ParseInt(boxcode, 16, 0)\<close> on the one-byte string \<^verbatim>\<open>boxcode\<close>: a digit,
      or a letter a to f in either case; any other byte is a syntax error\<close>
  "ParseInt16 c =
     (let n = (of_char c :: nat) in
      if 48 \<le> n \<and> n \<le> 57 then Inr (int n - 48)
      else if 97 \<le> n \<and> n \<le> 102 then Inr (int n - 97 + 10)
      else if 65 \<le> n \<and> n \<le> 70 then Inr (int n - 65 + 10)
      else Inl (NumError c))"

function GetNorthBoxTag :: "string \<Rightarrow> error + string" where
  "GetNorthBoxTag boxtag =
     (let hashlen = length boxtag in
      if hashlen = 0 then Inl EmptyTag
      else
        let prefix = take (hashlen - 1) boxtag;
            boxcode = boxtag ! (hashlen - 1)
        in case ParseInt16 boxcode of
             Inl err \<Rightarrow> Inl err
           | Inr boxint \<Rightarrow>
               let boxnorthint = boxint + 4 in
               if boxnorthint \<ge> 16 then
                 (case GetNorthBoxTag prefix of
                    Inl err \<Rightarrow> Inl err
                  | Inr prefix' \<Rightarrow>
                      Inr (prefix' @ CODES ! nat ((boxnorthint - 16) div 4)
                                           ! nat ((boxnorthint - 16) mod 4)))
               else Inr (prefix @ CODES ! nat (boxnorthint div 4) ! nat (boxnorthint mod 4)))"
  by pat_completeness auto
termination
  by (relation "measure length") auto

function GetEastBoxTag :: "string \<Rightarrow> error + string" where
  "GetEastBoxTag boxtag =
     (let hashlen = length boxtag in
      if hashlen = 0 then Inl EmptyTag
      else
        let prefix = take (hashlen - 1) boxtag;
            boxcode = boxtag ! (hashlen - 1)
        in case ParseInt16 boxcode of
             Inl err \<Rightarrow> Inl err
           | Inr boxint \<Rightarrow>
               let boxeastint = boxint + 1 in
               if (boxint mod 4) + 1 \<ge> 4 then
                 (case GetEastBoxTag prefix of
                    Inl err \<Rightarrow> Inl err
                  | Inr prefix' \<Rightarrow>
                      Inr (prefix' @ CODES ! nat ((boxeastint - 4) div 4)
                                           ! nat ((boxeastint - 4) mod 4)))
               else Inr (prefix @ CODES ! nat (boxeastint div 4) ! nat (boxeastint mod 4)))"
  by pat_completeness auto
termination
  by (relation "measure length") auto

declare GetNorthBoxTag.simps [simp del] GetEastBoxTag.simps [simp del]

section \<open>Tags of a region\<close>

function descend_loop ::
  "LatLngBounds \<Rightarrow> Geohasher \<times> Geohasher \<times> Geohasher \<times> Geohasher \<Rightarrow>
   error + Geohasher \<times> Geohasher \<times> Geohasher \<times> Geohasher" where
  \<comment> \<open>the first loop of GeoBoxTagsFromViewBounds, on the four hashers (sw, ne, se, nw).
      Its condition reads \<^verbatim>\<open>BOXSIZES[swhasher.GetDepth()+1]\<close> first and tests
      \<^verbatim>\<open>swhasher.GetDepth() < MAXDEPTH\<close> last.\<close>
  "descend_loop viewbounds (swhasher, nehasher, sehasher, nwhasher) =
     (case BOXSIZES_at (GetDepth swhasher + 1) of
        Inl err \<Rightarrow> Inl err
      | Inr boxsize \<Rightarrow>
          if Lat boxsize > \<bar>fsub (Lat (NE viewbounds)) (Lat (SW viewbounds))\<bar> \<and>
             Lng boxsize > \<bar>fsub (Lng (NE viewbounds)) (Lng (SW viewbounds))\<bar> \<and>
             GetDepth swhasher < MAXDEPTH
          then
            (case Descend swhasher of Inl err \<Rightarrow> Inl err | Inr swhasher' \<Rightarrow>
             case Descend nehasher of Inl err \<Rightarrow> Inl err | Inr nehasher' \<Rightarrow>
             case Descend sehasher of Inl err \<Rightarrow> Inl err | Inr sehasher' \<Rightarrow>
             case Descend nwhasher of Inl err \<Rightarrow> Inl err | Inr nwhasher' \<Rightarrow>
               descend_loop viewbounds (swhasher', nehasher', sehasher', nwhasher'))
          else Inr (swhasher, nehasher, sehasher, nwhasher))"
  by pat_completeness auto

function north_loop :: "string \<Rightarrow> string \<Rightarrow> GeoBoxTag list \<Rightarrow> error + GeoBoxTag list" where
  \<comment> \<open>\<^verbatim>\<open>for cursor != endtop\<close>\<close>
  "north_loop cursor endtop geoboxtags =
     (if cursor \<noteq> endtop then
        (case GetNorthBoxTag cursor of
           Inl err \<Rightarrow> Inl err
         | Inr cursor' \<Rightarrow> north_loop cursor' endtop (geoboxtags @ [cursor]))
      else Inr geoboxtags)"
  by pat_completeness auto

function east_loop ::
  "string \<Rightarrow> string \<Rightarrow> string \<Rightarrow> GeoBoxTag list \<Rightarrow> error + GeoBoxTag list" where
  \<comment> \<open>\<^verbatim>\<open>for botcursor != endbot\<close>\<close>
  "east_loop botcursor topcursor endbot geoboxtags =
     (if botcursor \<noteq> endbot then
        (case GetNorthBoxTag topcursor of Inl err \<Rightarrow> Inl err | Inr endtop \<Rightarrow>
         case north_loop botcursor endtop geoboxtags of Inl err \<Rightarrow> Inl err | Inr geoboxtags' \<Rightarrow>
         case GetEastBoxTag botcursor of Inl err \<Rightarrow> Inl err | Inr botcursor' \<Rightarrow>
         case GetEastBoxTag topcursor of Inl err \<Rightarrow> Inl err | Inr topcursor' \<Rightarrow>
           east_loop botcursor' topcursor' endbot geoboxtags')
      else Inr geoboxtags)"
  by pat_completeness auto

definition GeoBoxTagsFromViewBounds :: "LatLngBounds \<Rightarrow> error + GeoBoxTag list" where
  "GeoBoxTagsFromViewBounds viewbounds =
     (let swhasher = \<lparr>hash = [], Box = worldBox, Point = SW viewbounds\<rparr>;
          nehasher = \<lparr>hash = [], Box = worldBox, Point = NE viewbounds\<rparr>;
          sehasher = \<lparr>hash = [], Box = worldBox,
                      Point = \<lparr>Lat = Lat (SW viewbounds), Lng = Lng (NE viewbounds)\<rparr>\<rparr>;
          nwhasher = \<lparr>hash = [], Box = worldBox,
                      Point = \<lparr>Lat = Lat (NE viewbounds), Lng = Lng (SW viewbounds)\<rparr>\<rparr>
      in case descend_loop viewbounds (swhasher, nehasher, sehasher, nwhasher) of
           Inl err \<Rightarrow> Inl err
         | Inr (swhasher', nehasher', sehasher', nwhasher') \<Rightarrow>
             let swhash = GetHash swhasher'; nehash = GetHash nehasher';
                 sehash = GetHash sehasher'; nwhash = GetHash nwhasher'
             in if swhash = nehash then Inr [swhash]
                else
                  let hashlen = length swhash in
                  if hashlen \<noteq> length nehash \<or> hashlen \<noteq> length sehash \<or>
                     hashlen \<noteq> length nwhash
                  then Inl DifferentDepths
                  else
                    (case GetEastBoxTag sehash of
                       Inl err \<Rightarrow> Inl err
                     | Inr endbot \<Rightarrow> east_loop swhash nwhash endbot []))"

section \<open>Notions of the specification\<close>

definition is_tag :: "string \<Rightarrow> bool" where
  \<comment> \<open>a cell tag: at most \<open>MAXDEPTH\<close> symbols, each one of the sixteen codes of \<open>CODES\<close>\<close>
  "is_tag t \<longleftrightarrow> length t \<le> MAXDEPTH \<and> list_all (\<lambda>c. [c] \<in> set (concat CODES)) t"

definition cellBox :: "nat \<Rightarrow> nat \<Rightarrow> nat \<Rightarrow> LatLngBounds" where
  \<comment> \<open>the cell in row \<open>r\<close> (from the south) and column \<open>c\<close> (from the west) of the grid of
      depth \<open>d\<close>, which divides the world into \<open>4 ^ d\<close> rows and \<open>4 ^ d\<close> columns\<close>
  "cellBox d r c =
     \<lparr>NE = \<lparr>Lat = - 90 + real (r + 1) * 180 / 4 ^ d, Lng = - 180 + real (c + 1) * 360 / 4 ^ d\<rparr>,
      SW = \<lparr>Lat = - 90 + real r * 180 / 4 ^ d, Lng = - 180 + real c * 360 / 4 ^ d\<rparr>\<rparr>"

section \<open>Auxiliary notions\<close>

text \<open>
  Names for the parts of Descend that the proofs speak about: the two spacings it computes,
  the test of one sub-cell, the Geohasher it leaves when it selects a sub-cell, and the
  first index below 4 that satisfies a predicate.
\<close>

definition in_sub_box :: "Geohasher \<Rightarrow> float64 \<Rightarrow> float64 \<Rightarrow> nat \<Rightarrow> nat \<Rightarrow> bool" where
  "in_sub_box g ls gs i j = Within (Point g) (sub_box (Box g) ls gs i j)"

definition narrowed :: "Geohasher \<Rightarrow> float64 \<Rightarrow> float64 \<Rightarrow> nat \<Rightarrow> nat \<Rightarrow> Geohasher" where
  "narrowed g ls gs i j = g\<lparr>hash := hash g @ CODES ! i ! j, Box := sub_box (Box g) ls gs i j\<rparr>"

definition first4 :: "(nat \<Rightarrow> bool) \<Rightarrow> nat option" where
  "first4 P = find P [0, 1, 2, 3]"

definition latSpacing :: "Geohasher \<Rightarrow> float64" where
  "latSpacing g = fdiv \<bar>fsub (Lat (NE (Box g))) (Lat (SW (Box g)))\<bar> 4"

definition lngSpacing :: "Geohasher \<Rightarrow> float64" where
  "lngSpacing g = fdiv \<bar>fsub (Lng (NE (Box g))) (Lng (SW (Box g)))\<bar> 4"

text \<open>
  The symbol \<open>CODES[v/4][v%4]\<close> of a value, the row and the column of a symbol in \<open>CODES\<close>
  (0 for a byte that is no symbol), and the row and the column of the cell of a tag in the
  grid of its depth, read as base-4 numbers.
\<close>

definition codeOf :: "int \<Rightarrow> string" where
  "codeOf v = CODES ! nat (v div 4) ! nat (v mod 4)"

definition rowdigit :: "char \<Rightarrow> nat" where
  "rowdigit c = (case ParseInt16 c of Inl e \<Rightarrow> 0 | Inr v \<Rightarrow> nat (v div 4))"

definition coldigit :: "char \<Rightarrow> nat" where
  "coldigit c = (case ParseInt16 c of Inl e \<Rightarrow> 0 | Inr v \<Rightarrow> nat (v mod 4))"

definition rowval :: "string \<Rightarrow> nat" where
  "rowval t = foldl (\<lambda>a c. 4 * a + rowdigit c) 0 t"

definition colval :: "string \<Rightarrow> nat" where
  "colval t = foldl (\<lambda>a c. 4 * a + coldigit c) 0 t"

text \<open>
  The cell Descend assigns a point to: every cell holds its northern and eastern edge, and
  its southern and western edge only where that is the edge of the world. \<open>cursor_ok\<close> is
  the invariant of a Geohasher that started on the world box; \<open>ext_chain\<close> says that each
  tag of a list extends its predecessor by one symbol.
\<close>

definition in_cell :: "nat \<Rightarrow> nat \<Rightarrow> nat \<Rightarrow> LatLng \<Rightarrow> bool" where
  "in_cell d r c p \<longleftrightarrow>
     r < 4 ^ d \<and> c < 4 ^ d \<and>
     Lat p \<le> Lat (NE (cellBox d r c)) \<and>
     (if r = 0 then Lat (SW (cellBox d r c)) \<le> Lat p else Lat (SW (cellBox d r c)) < Lat p) \<and>
     Lng p \<le> Lng (NE (cellBox d r c)) \<and>
     (if c = 0 then Lng (SW (cellBox d r c)) \<le> Lng p else Lng (SW (cellBox d r c)) < Lng p)"

fun ext_chain :: "string \<Rightarrow> string list \<Rightarrow> bool" where
  "ext_chain h [] = True"
| "ext_chain h (t # ts) = ((\<exists>c. t = h @ [c]) \<and> ext_chain t ts)"

definition cursor_ok :: "nat \<Rightarrow> Geohasher \<Rightarrow> bool" where
  "cursor_ok d g \<longleftrightarrow>
     length (hash g) = d \<and>
     Box g = cellBox d (rowval (hash g)) (colval (hash g)) \<and>
     in_cell d (rowval (hash g)) (colval (hash g)) (Point g)"

subsection \<open>The cell a tag names\<close>

text \<open>
  The source has no function from a tag to its box. The cell named by a tag is the box a
  Geohasher holds when its hash is that tag: from the world box, each symbol narrows the
  box to the sub-cell of Descend whose code it is (\<open>narrow\<close> is the \<^verbatim>\<open>sub_box\<close> of
  Descend at the row and column of the symbol). Two boxes intersect when the closed
  rectangles share a point, as the inclusive containment of Within has it. Valid bounds
  have both corners on the map and the south-west corner not beyond the north-east one.
\<close>

definition narrow :: "LatLngBounds \<Rightarrow> char \<Rightarrow> LatLngBounds" where
  "narrow b c =
     sub_box b (fdiv \<bar>fsub (Lat (NE b)) (Lat (SW b))\<bar> 4) (fdiv \<bar>fsub (Lng (NE b)) (Lng (SW b))\<bar> 4)
       (rowdigit c) (coldigit c)"

definition tagBox :: "string \<Rightarrow> LatLngBounds" where
  "tagBox t = foldl narrow worldBox t"

definition intersects :: "LatLngBounds \<Rightarrow> LatLngBounds \<Rightarrow> bool" where
  "intersects a b \<longleftrightarrow>
     max (Lat (SW a)) (Lat (SW b)) \<le> min (Lat (NE a)) (Lat (NE b)) \<and>
     max (Lng (SW a)) (Lng (SW b)) \<le> min (Lng (NE a)) (Lng (NE b))"

definition valid_bounds :: "LatLngBounds \<Rightarrow> bool" where
  "valid_bounds b \<longleftrightarrow>
     - 90 \<le> Lat (SW b) \<and> Lat (SW b) \<le> Lat (NE b) \<and> Lat (NE b) \<le> 90 \<and>
     - 180 \<le> Lng (SW b) \<and> Lng (SW b) \<le> Lng (NE b) \<and> Lng (NE b) \<le> 180"

section \<open>Example inputs\<close>

text \<open>
  A Geohasher at the origin of the map, on the world box, and the Geohasher Descend makes
  of it.
\<close>

definition g_origin :: Geohasher where
  "g_origin = \<lparr>hash = [], Box = worldBox, Point = \<lparr>Lat = 0, Lng = 0\<rparr>\<rparr>"

definition g_origin_5 :: Geohasher where
  "g_origin_5 = g_origin\<lparr>hash := ''5'', Box := cellBox 1 1 1\<rparr>"

text \<open>
  A Geohasher on a box that is no cell of the grid: its latitudes run from \<open>-1\<close> to
  \<open>2^-60\<close>, and its point is on the northern edge.
\<close>

definition g_skew :: Geohasher where
  "g_skew = \<lparr>hash = [],
             Box = \<lparr>NE = \<lparr>Lat = 1 / 2 ^ 60, Lng = 4\<rparr>, SW = \<lparr>Lat = - 1, Lng = 0\<rparr>\<rparr>,
             Point = \<lparr>Lat = 1 / 2 ^ 60, Lng = 0\<rparr>\<rparr>"

text \<open>
  View bounds: a square smaller than the cells of depth 10, a single point, the whole
  world, and the square of twenty degrees around the origin.
\<close>

definition tiny_bounds :: LatLngBounds where
  "tiny_bounds = \<lparr>NE = \<lparr>Lat = 1 / 2 ^ 20, Lng = 1 / 2 ^ 20\<rparr>, SW = \<lparr>Lat = 0, Lng = 0\<rparr>\<rparr>"

definition point_bounds :: LatLngBounds where
  "point_bounds = \<lparr>NE = \<lparr>Lat = 37.75, Lng = - 122.5\<rparr>, SW = \<lparr>Lat = 37.75, Lng = - 122.5\<rparr>\<rparr>"

definition world_bounds :: LatLngBounds where
  "world_bounds = \<lparr>NE = \<lparr>Lat = 90, Lng = 180\<rparr>, SW = \<lparr>Lat = - 90, Lng = - 180\<rparr>\<rparr>"

definition view10 :: LatLngBounds where
  "view10 = \<lparr>NE = \<lparr>Lat = 10, Lng = 10\<rparr>, SW = \<lparr>Lat = - 10, Lng = - 10\<rparr>\<rparr>"

text \<open>
  Entities: one at the origin without tags, and one north of the pole that carries a tag.
\<close>

definition l_origin :: Locatable where
  "l_origin = \<lparr>Location = \<lparr>Lat = 0, Lng = 0\<rparr>, GeoBoxTags = []\<rparr>"

definition l_far :: Locatable where
  "l_far = \<lparr>Location = \<lparr>Lat = 91, Lng = 0\<rparr>, GeoBoxTags = [''8'']\<rparr>"

section \<open>Rounding is exact on the grid\<close>

text \<open>
  Three values of the rounding, as binary64 has them: the double nearest to \<open>1/10\<close> is
  \<open>3602879701896397 / 2^55\<close>, and of the two ties next to 1 each goes to the neighbour
  with the even mantissa.
\<close>

lemma round64_examples:
  "round64 (1 / 10) = 3602879701896397 / 2 ^ 55"
  "round64 (1 + 1 / 2 ^ 53) = 1"
  "round64 (1 + 3 / 2 ^ 53) = 1 + 1 / 2 ^ 51"
  by code_simp+

lemma ilog2_lower:
  assumes "x \<noteq> 0"
  shows "2 powi ilog2 x \<le> \<bar>x\<bar>"
proof (cases "1 \<le> \<bar>x\<bar>")
  case True
  define n where "n = \<lfloor>\<bar>x\<bar>\<rfloor>"
  have n: "0 < n" using True by (simp add: n_def)
  have b: "1 \<le> bitlen n" using n by (simp add: bitlen_alt_def)
  have "(2::int) ^ nat (bitlen n - 1) \<le> n" using bitlen_bounds [OF n] by simp
  then have "real_of_int (2 ^ nat (bitlen n - 1)) \<le> real_of_int n" by linarith
  also have "\<dots> \<le> \<bar>x\<bar>" by (simp add: n_def)
  finally have "2 ^ nat (bitlen n - 1) \<le> \<bar>x\<bar>" by simp
  moreover have "(2::real) powi (bitlen n - 1) = 2 ^ nat (bitlen n - 1)"
    using b by (simp add: power_int_def)
  ultimately show ?thesis using True by (simp add: ilog2_def n_def)
next
  case False
  define n where "n = \<lceil>1 / \<bar>x\<bar>\<rceil>"
  have x: "0 < \<bar>x\<bar>" "\<bar>x\<bar> < 1" using assms False by auto
  have "1 < 1 / \<bar>x\<bar>" using x by simp
  then have n: "0 < n - 1" unfolding n_def by linarith
  have "n - 1 < 2 ^ nat (bitlen (n - 1))" using bitlen_bounds [OF n] by simp
  then have "n \<le> 2 ^ nat (bitlen (n - 1))" by linarith
  then have "real_of_int n \<le> real_of_int (2 ^ nat (bitlen (n - 1)))" by linarith
  then have "real_of_int n \<le> 2 ^ nat (bitlen (n - 1))" by simp
  moreover have "1 / \<bar>x\<bar> \<le> real_of_int n" unfolding n_def by (rule le_of_int_ceiling)
  ultimately have "1 / \<bar>x\<bar> \<le> 2 ^ nat (bitlen (n - 1))" by (rule order_trans [rotated])
  then have "1 \<le> 2 ^ nat (bitlen (n - 1)) * \<bar>x\<bar>"
    using x by (simp add: field_simps)
  then have "inverse (2 ^ nat (bitlen (n - 1))) \<le> \<bar>x\<bar>"
    by (simp add: field_simps)
  moreover have "(2::real) powi (- bitlen (n - 1)) = inverse (2 ^ nat (bitlen (n - 1)))"
    using bitlen_nonneg [of "n - 1"] by (simp add: power_int_def power_one_over inverse_eq_divide)
  ultimately show ?thesis using False by (simp add: ilog2_def n_def)
qed

lemma rne_of_int: "rne (of_int z) = z"
  by (simp add: rne_def)

lemma round64_exact:
  assumes x: "x = of_int m * 2 powi k" and m: "\<bar>m\<bar> < 2 ^ 53" and k: "- 1074 \<le> k"
  shows "round64 x = x"
proof (cases "x = 0")
  case True
  then show ?thesis by (simp add: round64_def)
next
  case False
  define e where "e = max (ilog2 x - 52) (- 1074)"
  have "2 powi ilog2 x \<le> \<bar>x\<bar>" by (rule ilog2_lower [OF False])
  also have "\<bar>x\<bar> = real_of_int \<bar>m\<bar> * 2 powi k" by (simp add: x abs_mult)
  also have "\<dots> < 2 ^ 53 * 2 powi k"
  proof -
    have "real_of_int \<bar>m\<bar> < real_of_int (2 ^ 53)" using m by linarith
    then show ?thesis by simp
  qed
  also have "\<dots> = 2 powi (k + 53)" by (simp add: power_int_add)
  finally have lt: "(2::real) powi ilog2 x < 2 powi (k + 53)" .
  have "ilog2 x < k + 53"
  proof (rule ccontr)
    assume "\<not> ilog2 x < k + 53"
    then have "(2::real) powi (k + 53) \<le> 2 powi ilog2 x"
      by (intro power_int_increasing) auto
    with lt show False by simp
  qed
  then have ek: "e \<le> k" using k by (simp add: e_def)
  have "x / 2 powi e = of_int m * 2 powi (k - e)"
    by (simp add: x power_int_diff)
  also have "\<dots> = of_int (m * 2 ^ nat (k - e))"
    using ek by (simp add: power_int_def)
  finally have q: "x / 2 powi e = of_int (m * 2 ^ nat (k - e))" .
  have "round64 x = of_int (rne (x / 2 powi e)) * 2 powi e"
    using False by (simp add: round64_def e_def Let_def)
  also have "\<dots> = x / 2 powi e * 2 powi e"
    by (simp only: q rne_of_int)
  also have "\<dots> = x" by simp
  finally show ?thesis .
qed

lemma round64_grid:
  assumes "x = of_int m * 45 / 4 ^ d" and "\<bar>m\<bar> \<le> 8 * 4 ^ d" and "d \<le> 11"
  shows "round64 x = x"
proof (rule round64_exact [where m = "45 * m" and k = "- 2 * int d"])
  have "(2::real) powi (- 2 * int d) = inverse (2 powi (int (2 * d)))"
    by (simp add: power_int_minus)
  also have "\<dots> = inverse (4 ^ d)"
    by (simp only: power_int_of_nat power_mult) simp
  finally show "x = real_of_int (45 * m) * 2 powi (- 2 * int d)"
    by (simp add: assms(1) field_simps)
  have "(4::int) ^ d \<le> 4 ^ 11" using assms(3) by (intro power_increasing) auto
  then have "\<bar>m\<bar> \<le> 8 * 4 ^ 11" using assms(2) by linarith
  then show "\<bar>45 * m\<bar> < 2 ^ 53" by (simp add: abs_mult)
  show "- 1074 \<le> - 2 * int d" using assms(3) by simp
qed

section \<open>The scan of Descend\<close>

lemma first4_Some: "first4 P = Some j \<longleftrightarrow> j < 4 \<and> P j \<and> (\<forall>j'<j. \<not> P j')"
  by (auto simp: first4_def less_Suc_eq numeral_3_eq_3 numeral_Bit0 split: if_splits)

lemma first4_None: "first4 P = None \<longleftrightarrow> (\<forall>j<4. \<not> P j)"
  by (auto simp: first4_def less_Suc_eq numeral_3_eq_3 numeral_Bit0 split: if_splits)

lemma inner_loop_find:
  "inner_loop ls gs i js (code, g) =
     (case find (in_sub_box g ls gs i) js of None \<Rightarrow> (code, g)
      | Some j \<Rightarrow> (CODES ! i ! j, narrowed g ls gs i j))"
  by (induction js) (simp_all add: in_sub_box_def narrowed_def Let_def)

lemma inner_loop_first4:
  "inner_loop ls gs i [0, 1, 2, 3] (code, g) =
     (case first4 (in_sub_box g ls gs i) of None \<Rightarrow> (code, g)
      | Some j \<Rightarrow> (CODES ! i ! j, narrowed g ls gs i j))"
  unfolding first4_def by (rule inner_loop_find)

lemma CODES_not_X: "i < 4 \<Longrightarrow> j < 4 \<Longrightarrow> CODES ! i ! j \<noteq> ''X''"
  by (auto simp: CODES_def less_Suc_eq numeral_3_eq_3 numeral_Bit0)

lemma outer_loop_find:
  assumes "\<forall>i\<in>set is. i < 4"
  shows "outer_loop ls gs is (''X'', g) =
     (case find (\<lambda>i. first4 (in_sub_box g ls gs i) \<noteq> None) is of None \<Rightarrow> (''X'', g)
      | Some i \<Rightarrow> (case first4 (in_sub_box g ls gs i) of
                     None \<Rightarrow> (''X'', g)
                   | Some j \<Rightarrow> (CODES ! i ! j, narrowed g ls gs i j)))"
  using assms
proof (induction "is")
  case Nil
  then show ?case by simp
next
  case (Cons i "is")
  have step: "outer_loop ls gs (i # is) (''X'', g) =
    (case (case first4 (in_sub_box g ls gs i) of None \<Rightarrow> (''X'', g)
           | Some j \<Rightarrow> (CODES ! i ! j, narrowed g ls gs i j)) of
       (code', g') \<Rightarrow>
         if code' \<noteq> ''X'' then (code', g') else outer_loop ls gs is (code', g'))"
    by (simp only: outer_loop.simps inner_loop_first4)
  show ?case
  proof (cases "first4 (in_sub_box g ls gs i)")
    case None
    with Cons show ?thesis unfolding step by simp
  next
    case (Some j)
    then have "j < 4" by (simp add: first4_Some)
    moreover have "i < 4" using Cons.prems by simp
    ultimately have "CODES ! i ! j \<noteq> ''X''" by (rule CODES_not_X [rotated])
    with Some show ?thesis unfolding step by simp
  qed
qed

lemma outer_loop_first4:
  "outer_loop ls gs [0, 1, 2, 3] (''X'', g) =
     (case first4 (\<lambda>i. first4 (in_sub_box g ls gs i) \<noteq> None) of None \<Rightarrow> (''X'', g)
      | Some i \<Rightarrow> (case first4 (in_sub_box g ls gs i) of
                     None \<Rightarrow> (''X'', g)
                   | Some j \<Rightarrow> (CODES ! i ! j, narrowed g ls gs i j)))"
  unfolding first4_def [of "\<lambda>i. first4 (in_sub_box g ls gs i) \<noteq> None"]
  by (rule outer_loop_find) simp

lemma Descend_Inr_iff:
  "Descend g = Inr g' \<longleftrightarrow>
     Within (Point g) (Box g) \<and>
     (\<exists>i j. i < 4 \<and> j < 4 \<and> g' = narrowed g (latSpacing g) (lngSpacing g) i j \<and>
            in_sub_box g (latSpacing g) (lngSpacing g) i j \<and>
            (\<forall>i'<i. \<forall>j'<4. \<not> in_sub_box g (latSpacing g) (lngSpacing g) i' j') \<and>
            (\<forall>j'<j. \<not> in_sub_box g (latSpacing g) (lngSpacing g) i j'))"
  (is "?L \<longleftrightarrow> ?W \<and> ?R")
proof (cases "Within (Point g) (Box g)")
  case False
  then show ?thesis by (simp add: Descend_def)
next
  case True
  let ?P = "\<lambda>i. first4 (in_sub_box g (latSpacing g) (lngSpacing g) i) \<noteq> None"
  have D: "Descend g =
    (case outer_loop (latSpacing g) (lngSpacing g) [0, 1, 2, 3] (''X'', g) of
       (code, g') \<Rightarrow> if code = ''X'' then Inl NoMatchingSubBox else Inr g')"
    using True by (simp add: Descend_def latSpacing_def lngSpacing_def Let_def)
  show ?thesis
  proof (cases "first4 ?P")
    case None
    then have "\<forall>i<4. \<forall>j<4. \<not> in_sub_box g (latSpacing g) (lngSpacing g) i j"
      by (simp add: first4_Some first4_None)
    moreover have "Descend g = Inl NoMatchingSubBox"
      using None unfolding D outer_loop_first4 by simp
    ultimately show ?thesis by auto
  next
    case (Some i)
    then have i: "i < 4" "?P i" "\<forall>i'<i. \<not> ?P i'"
      by (simp_all add: first4_Some first4_None)
    then obtain j where j: "first4 (in_sub_box g (latSpacing g) (lngSpacing g) i) = Some j" by auto
    then have j': "j < 4" "in_sub_box g (latSpacing g) (lngSpacing g) i j"
      "\<forall>j'<j. \<not> in_sub_box g (latSpacing g) (lngSpacing g) i j'"
      by (simp_all add: first4_Some first4_None)
    have "CODES ! i ! j \<noteq> ''X''" using i(1) j'(1) by (rule CODES_not_X)
    then have eq: "Descend g = Inr (narrowed g (latSpacing g) (lngSpacing g) i j)"
      using Some j unfolding D outer_loop_first4 by simp
    have none: "\<forall>i'<i. \<forall>j'<4. \<not> in_sub_box g (latSpacing g) (lngSpacing g) i' j'"
      using i(3) by (simp add: first4_Some first4_None)
    show ?thesis
    proof
      assume ?L
      with eq have "g' = narrowed g (latSpacing g) (lngSpacing g) i j" by simp
      with True i(1) j' none show "?W \<and> ?R" by blast
    next
      assume "?W \<and> ?R"
      then obtain a b where ab: "a < 4" "b < 4" "g' = narrowed g (latSpacing g) (lngSpacing g) a b"
        "in_sub_box g (latSpacing g) (lngSpacing g) a b"
        "\<forall>i'<a. \<forall>j'<4. \<not> in_sub_box g (latSpacing g) (lngSpacing g) i' j'"
        "\<forall>j'<b. \<not> in_sub_box g (latSpacing g) (lngSpacing g) a j'" by blast
      have "a = i"
      proof (rule ccontr)
        assume "a \<noteq> i"
        then consider "a < i" | "i < a" by linarith
        then show False
        proof cases
          case 1 with none ab(2,4) show False by blast
        next
          case 2 with ab(5) j'(1,2) show False by blast
        qed
      qed
      moreover have "b = j"
      proof (rule ccontr)
        assume "b \<noteq> j"
        then consider "b < j" | "j < b" by linarith
        then show False
        proof cases
          case 1 with j'(3) ab(4) \<open>a = i\<close> show False by blast
        next
          case 2 with ab(6) j'(2) \<open>a = i\<close> show False by blast
        qed
      qed
      ultimately show ?L using eq ab(3) by simp
    qed
  qed
qed

lemma Descend_NoMatch_iff:
  "Descend g = Inl NoMatchingSubBox \<longleftrightarrow>
     Within (Point g) (Box g) \<and> (\<forall>i<4. \<forall>j<4. \<not> in_sub_box g (latSpacing g) (lngSpacing g) i j)"
proof (cases "Within (Point g) (Box g)")
  case False
  then show ?thesis by (simp add: Descend_def)
next
  case True
  show ?thesis
  proof (cases "Descend g")
    case (Inr g')
    then show ?thesis using Inr [unfolded Descend_Inr_iff] by auto
  next
    case (Inl e)
    have "e = NoMatchingSubBox"
      using Inl True by (auto simp: Descend_def Let_def split: prod.splits if_splits)
    moreover have "\<forall>i<4. \<forall>j<4. \<not> in_sub_box g (latSpacing g) (lngSpacing g) i j"
    proof (intro allI impI notI)
      fix i j :: nat assume ij: "i < 4" "j < 4" "in_sub_box g (latSpacing g) (lngSpacing g) i j"
      define P where "P = (\<lambda>(a, b). a < 4 \<and> b < 4 \<and> in_sub_box g (latSpacing g) (lngSpacing g) a b)"
      define m where "m = (LEAST a. \<exists>b. P (a, b))"
      have "\<exists>b. P (m, b)" unfolding m_def by (rule LeastI [of _ i]) (use ij in \<open>auto simp: P_def\<close>)
      moreover define n where "n = (LEAST b. P (m, b))"
      ultimately have mn: "P (m, n)" unfolding n_def by (metis LeastI)
      have lm: "\<forall>a<m. \<forall>b. \<not> P (a, b)" unfolding m_def using not_less_Least by blast
      have ln: "\<forall>b<n. \<not> P (m, b)" unfolding n_def using not_less_Least by blast
      have "m < 4 \<and> n < 4 \<and>
          narrowed g (latSpacing g) (lngSpacing g) m n = narrowed g (latSpacing g) (lngSpacing g) m n \<and>
          in_sub_box g (latSpacing g) (lngSpacing g) m n \<and>
          (\<forall>i'<m. \<forall>j'<4. \<not> in_sub_box g (latSpacing g) (lngSpacing g) i' j') \<and>
          (\<forall>j'<n. \<not> in_sub_box g (latSpacing g) (lngSpacing g) m j')"
        using mn lm ln by (auto simp: P_def)
      then have "Descend g = Inr (narrowed g (latSpacing g) (lngSpacing g) m n)"
        unfolding Descend_Inr_iff using True by blast
      with Inl show False by simp
    qed
    ultimately show ?thesis using Inl True by simp
  qed
qed

lemma CODES_length: "i < 4 \<Longrightarrow> j < 4 \<Longrightarrow> length (CODES ! i ! j) = 1"
  by (auto simp: CODES_def less_Suc_eq numeral_3_eq_3 numeral_Bit0)

lemma Descend_length:
  "Descend g = Inr g' \<Longrightarrow> length (hash g') = Suc (length (hash g))"
  by (auto simp: Descend_Inr_iff narrowed_def CODES_length)

section \<open>Descend on a cell of the grid\<close>

lemma round64_eqI: "x = y \<Longrightarrow> round64 y = y \<Longrightarrow> round64 x = x"
  by simp

lemma int_le_pow4: "k \<le> n * 4 ^ d \<Longrightarrow> int k \<le> int n * 4 ^ d"
proof -
  assume "k \<le> n * 4 ^ d"
  then have "int k \<le> int (n * 4 ^ d)" by (simp only: of_nat_le_iff)
  then show ?thesis by simp
qed

lemma round64_span:
  assumes "d \<le> 11" and "k \<le> 8 * 4 ^ d"
  shows "round64 (real k * 45 / 4 ^ d) = real k * 45 / 4 ^ d"
proof (rule round64_grid [where m = "int k" and d = d])
  show "real k * 45 / 4 ^ d = real_of_int (int k) * 45 / 4 ^ d" by simp
  show "\<bar>int k\<bar> \<le> 8 * 4 ^ d" using int_le_pow4 [OF assms(2)] by simp
  show "d \<le> 11" by fact
qed

lemma round64_lat:
  assumes "d \<le> 11" and "k \<le> 4 ^ d"
  shows "round64 (- 90 + real k * 180 / 4 ^ d) = - 90 + real k * 180 / 4 ^ d"
proof (rule round64_grid [where m = "4 * int k - 2 * 4 ^ d" and d = d])
  show "- 90 + real k * 180 / 4 ^ d = real_of_int (4 * int k - 2 * 4 ^ d) * 45 / 4 ^ d"
    by (simp add: field_simps)
  have "int k \<le> 4 ^ d" using int_le_pow4 [of k 1 d] assms(2) by simp
  moreover have "0 \<le> int k" by simp
  moreover have "(0::int) \<le> 4 ^ d" by simp
  ultimately show "\<bar>4 * int k - 2 * 4 ^ d\<bar> \<le> 8 * 4 ^ d" by linarith
  show "d \<le> 11" by fact
qed

lemma round64_lng:
  assumes "d \<le> 11" and "k \<le> 4 ^ d"
  shows "round64 (- 180 + real k * 360 / 4 ^ d) = - 180 + real k * 360 / 4 ^ d"
proof (rule round64_grid [where m = "8 * int k - 4 * 4 ^ d" and d = d])
  show "- 180 + real k * 360 / 4 ^ d = real_of_int (8 * int k - 4 * 4 ^ d) * 45 / 4 ^ d"
    by (simp add: field_simps)
  have "int k \<le> 4 ^ d" using int_le_pow4 [of k 1 d] assms(2) by simp
  moreover have "0 \<le> int k" by simp
  moreover have "(0::int) \<le> 4 ^ d" by simp
  ultimately show "\<bar>8 * int k - 4 * 4 ^ d\<bar> \<le> 8 * 4 ^ d" by linarith
  show "d \<le> 11" by fact
qed

lemma round64_span_num:
  assumes "d \<le> 10" and "k \<le> 32"
  shows "round64 (real k * 45 / 4 ^ Suc d) = real k * 45 / 4 ^ Suc d"
proof (rule round64_span)
  show "Suc d \<le> 11" using assms(1) by simp
  have "(32::nat) \<le> 8 * 4 ^ Suc d" by simp
  with assms(2) show "k \<le> 8 * 4 ^ Suc d" by linarith
qed

lemma spacing_cell:
  assumes "d \<le> 10" and "Box g = cellBox d r c"
  shows "latSpacing g = 180 / 4 ^ Suc d" and "lngSpacing g = 360 / 4 ^ Suc d"
proof -
  have "round64 (Lat (NE (Box g)) - Lat (SW (Box g))) = Lat (NE (Box g)) - Lat (SW (Box g))"
  proof (rule round64_eqI)
    show "Lat (NE (Box g)) - Lat (SW (Box g)) = real 16 * 45 / 4 ^ Suc d"
      by (simp add: assms(2) cellBox_def field_simps)
    show "round64 (real 16 * 45 / 4 ^ Suc d) = real 16 * 45 / 4 ^ Suc d"
      using assms(1) by (intro round64_span_num) simp_all
  qed
  then have s: "fsub (Lat (NE (Box g))) (Lat (SW (Box g))) = 180 / 4 ^ d"
    by (simp add: fsub_def assms(2) cellBox_def field_simps)
  have "round64 (180 / 4 ^ d / 4) = 180 / 4 ^ d / 4"
  proof (rule round64_eqI)
    show "180 / 4 ^ d / 4 = real 4 * 45 / 4 ^ Suc d" by simp
    show "round64 (real 4 * 45 / 4 ^ Suc d) = real 4 * 45 / 4 ^ Suc d"
      using assms(1) by (intro round64_span_num) simp_all
  qed
  then show "latSpacing g = 180 / 4 ^ Suc d"
    by (simp add: latSpacing_def fdiv_def s)
  have "round64 (Lng (NE (Box g)) - Lng (SW (Box g))) = Lng (NE (Box g)) - Lng (SW (Box g))"
  proof (rule round64_eqI)
    show "Lng (NE (Box g)) - Lng (SW (Box g)) = real 32 * 45 / 4 ^ Suc d"
      by (simp add: assms(2) cellBox_def field_simps)
    show "round64 (real 32 * 45 / 4 ^ Suc d) = real 32 * 45 / 4 ^ Suc d"
      using assms(1) by (intro round64_span_num) simp_all
  qed
  then have s: "fsub (Lng (NE (Box g))) (Lng (SW (Box g))) = 360 / 4 ^ d"
    by (simp add: fsub_def assms(2) cellBox_def field_simps)
  have "round64 (360 / 4 ^ d / 4) = 360 / 4 ^ d / 4"
  proof (rule round64_eqI)
    show "360 / 4 ^ d / 4 = real 8 * 45 / 4 ^ Suc d" by simp
    show "round64 (real 8 * 45 / 4 ^ Suc d) = real 8 * 45 / 4 ^ Suc d"
      using assms(1) by (intro round64_span_num) simp_all
  qed
  then show "lngSpacing g = 360 / 4 ^ Suc d"
    by (simp add: lngSpacing_def fdiv_def s)
qed

lemma lat_edge:
  assumes "d \<le> 10" and "r < 4 ^ d" and "i \<le> 4"
  shows "fadd (- 90 + real r * 180 / 4 ^ d) (fmul (real i) (180 / 4 ^ Suc d)) =
         - 90 + real (4 * r + i) * 180 / 4 ^ Suc d"
proof -
  have "round64 (real i * (180 / 4 ^ Suc d)) = real i * (180 / 4 ^ Suc d)"
  proof (rule round64_eqI)
    show "real i * (180 / 4 ^ Suc d) = real (4 * i) * 45 / 4 ^ Suc d" by simp
    show "round64 (real (4 * i) * 45 / 4 ^ Suc d) = real (4 * i) * 45 / 4 ^ Suc d"
      using assms by (intro round64_span_num) simp_all
  qed
  then have m: "fmul (real i) (180 / 4 ^ Suc d) = real i * (180 / 4 ^ Suc d)"
    by (simp only: fmul_def)
  have k: "4 * r + i \<le> 4 ^ Suc d" using assms by simp
  have "round64 (- 90 + real r * 180 / 4 ^ d + real i * (180 / 4 ^ Suc d)) =
        - 90 + real r * 180 / 4 ^ d + real i * (180 / 4 ^ Suc d)"
  proof (rule round64_eqI)
    show "- 90 + real r * 180 / 4 ^ d + real i * (180 / 4 ^ Suc d) =
        - 90 + real (4 * r + i) * 180 / 4 ^ Suc d"
      by (simp add: field_simps)
    show "round64 (- 90 + real (4 * r + i) * 180 / 4 ^ Suc d) =
        - 90 + real (4 * r + i) * 180 / 4 ^ Suc d"
      using assms(1) k by (intro round64_lat) simp_all
  qed
  then have "fadd (- 90 + real r * 180 / 4 ^ d) (fmul (real i) (180 / 4 ^ Suc d)) =
      - 90 + real r * 180 / 4 ^ d + real i * (180 / 4 ^ Suc d)"
    by (simp only: fadd_def m)
  also have "\<dots> = - 90 + real (4 * r + i) * 180 / 4 ^ Suc d"
    by (simp add: field_simps)
  finally show ?thesis .
qed

lemma lng_edge:
  assumes "d \<le> 10" and "c < 4 ^ d" and "j \<le> 4"
  shows "fadd (- 180 + real c * 360 / 4 ^ d) (fmul (real j) (360 / 4 ^ Suc d)) =
         - 180 + real (4 * c + j) * 360 / 4 ^ Suc d"
proof -
  have "round64 (real j * (360 / 4 ^ Suc d)) = real j * (360 / 4 ^ Suc d)"
  proof (rule round64_eqI)
    show "real j * (360 / 4 ^ Suc d) = real (8 * j) * 45 / 4 ^ Suc d" by simp
    show "round64 (real (8 * j) * 45 / 4 ^ Suc d) = real (8 * j) * 45 / 4 ^ Suc d"
      using assms by (intro round64_span_num) simp_all
  qed
  then have m: "fmul (real j) (360 / 4 ^ Suc d) = real j * (360 / 4 ^ Suc d)"
    by (simp only: fmul_def)
  have k: "4 * c + j \<le> 4 ^ Suc d" using assms by simp
  have "round64 (- 180 + real c * 360 / 4 ^ d + real j * (360 / 4 ^ Suc d)) =
        - 180 + real c * 360 / 4 ^ d + real j * (360 / 4 ^ Suc d)"
  proof (rule round64_eqI)
    show "- 180 + real c * 360 / 4 ^ d + real j * (360 / 4 ^ Suc d) =
        - 180 + real (4 * c + j) * 360 / 4 ^ Suc d"
      by (simp add: field_simps)
    show "round64 (- 180 + real (4 * c + j) * 360 / 4 ^ Suc d) =
        - 180 + real (4 * c + j) * 360 / 4 ^ Suc d"
      using assms(1) k by (intro round64_lng) simp_all
  qed
  then have "fadd (- 180 + real c * 360 / 4 ^ d) (fmul (real j) (360 / 4 ^ Suc d)) =
      - 180 + real c * 360 / 4 ^ d + real j * (360 / 4 ^ Suc d)"
    by (simp only: fadd_def m)
  also have "\<dots> = - 180 + real (4 * c + j) * 360 / 4 ^ Suc d"
    by (simp add: field_simps)
  finally show ?thesis .
qed

lemma sub_box_cell:
  assumes "d \<le> 10" and "r < 4 ^ d" and "c < 4 ^ d" and "i < 4" and "j < 4"
  shows "sub_box (cellBox d r c) (180 / 4 ^ Suc d) (360 / 4 ^ Suc d) i j =
         cellBox (Suc d) (4 * r + i) (4 * c + j)"
proof -
  have sw: "Lat (SW (cellBox d r c)) = - 90 + real r * 180 / 4 ^ d"
       "Lng (SW (cellBox d r c)) = - 180 + real c * 360 / 4 ^ d"
    by (simp_all add: cellBox_def)
  have le: "i \<le> 4" "i + 1 \<le> 4" "j \<le> 4" "j + 1 \<le> 4" using assms by simp_all
  show ?thesis
    unfolding sub_box_def sw
    by (simp only: lat_edge [OF assms(1,2)] lng_edge [OF assms(1,3)] le)
       (simp add: cellBox_def)
qed

lemma in_cell_Within: "in_cell d r c p \<Longrightarrow> Within p (cellBox d r c)"
  by (auto simp: in_cell_def Within_def split: if_splits)

lemma worldBox_cell: "worldBox = cellBox 0 0 0"
  by (simp add: worldBox_def cellBox_def MAXLAT_def MINLAT_def MAXLNG_def MINLNG_def)

lemma in_cell_world:
  assumes "- 90 \<le> Lat p" "Lat p \<le> 90" "- 180 \<le> Lng p" "Lng p \<le> 180"
  shows "in_cell 0 0 0 p"
  using assms by (simp add: in_cell_def cellBox_def)

lemma first_band:
  fixes x L s :: real
  assumes "x \<le> L + 4 * s"
  shows "\<exists>i<4. x \<le> L + real (i + 1) * s \<and> (\<forall>i'<i. \<not> x \<le> L + real (i' + 1) * s) \<and>
               (0 < i \<longrightarrow> L + real i * s < x)"
proof -
  define i where "i = (LEAST i. x \<le> L + real (i + 1) * s)"
  have ex: "x \<le> L + real (3 + 1) * s" using assms by simp
  have 1: "x \<le> L + real (i + 1) * s" unfolding i_def by (rule LeastI [of _ 3]) (rule ex)
  have "i \<le> 3" unfolding i_def by (rule Least_le) (rule ex)
  then have 2: "i < 4" by simp
  have 3: "\<forall>i'<i. \<not> x \<le> L + real (i' + 1) * s"
    unfolding i_def using not_less_Least by blast
  have 4: "0 < i \<longrightarrow> L + real i * s < x"
  proof
    assume "0 < i"
    then have "i - 1 < i" by simp
    with 3 have "\<not> x \<le> L + real (i - 1 + 1) * s" by blast
    with \<open>0 < i\<close> show "L + real i * s < x" by simp
  qed
  from 1 2 3 4 show ?thesis by blast
qed

lemma cell_edges:
  "Lat (SW (cellBox (Suc d) (4 * r + a) cc)) = - 90 + real r * 180 / 4 ^ d + real a * (180 / 4 ^ Suc d)"
  "Lat (NE (cellBox (Suc d) (4 * r + a) cc)) = - 90 + real r * 180 / 4 ^ d + real (a + 1) * (180 / 4 ^ Suc d)"
  "Lng (SW (cellBox (Suc d) rr (4 * c + b))) = - 180 + real c * 360 / 4 ^ d + real b * (360 / 4 ^ Suc d)"
  "Lng (NE (cellBox (Suc d) rr (4 * c + b))) = - 180 + real c * 360 / 4 ^ d + real (b + 1) * (360 / 4 ^ Suc d)"
  by (simp_all add: cellBox_def field_simps)

lemma cell_edges0:
  "Lat (SW (cellBox d r c)) = - 90 + real r * 180 / 4 ^ d"
  "Lat (NE (cellBox d r c)) = - 90 + real r * 180 / 4 ^ d + 4 * (180 / 4 ^ Suc d)"
  "Lng (SW (cellBox d r c)) = - 180 + real c * 360 / 4 ^ d"
  "Lng (NE (cellBox d r c)) = - 180 + real c * 360 / 4 ^ d + 4 * (360 / 4 ^ Suc d)"
  by (simp_all add: cellBox_def field_simps)

lemma Descend_in_cell:
  assumes d: "d \<le> 10" and B: "Box g = cellBox d r c" and P: "in_cell d r c (Point g)"
  shows "\<exists>i j. i < 4 \<and> j < 4 \<and>
           Descend g = Inr (narrowed g (latSpacing g) (lngSpacing g) i j) \<and>
           sub_box (Box g) (latSpacing g) (lngSpacing g) i j = cellBox (Suc d) (4 * r + i) (4 * c + j) \<and>
           in_cell (Suc d) (4 * r + i) (4 * c + j) (Point g)"
proof -
  define x where "x = Lat (Point g)"
  define y where "y = Lng (Point g)"
  define L where "L = - 90 + real r * 180 / 4 ^ d"
  define M where "M = - 180 + real c * 360 / 4 ^ d"
  define s :: real where "s = 180 / 4 ^ Suc d"
  define w :: real where "w = 360 / 4 ^ Suc d"
  have s: "0 < s" and w: "0 < w" by (simp_all add: s_def w_def)
  from P have rc: "r < 4 ^ d" "c < 4 ^ d" by (simp_all add: in_cell_def)
  from P have "x \<le> Lat (NE (cellBox d r c))" "y \<le> Lng (NE (cellBox d r c))"
    by (simp_all add: in_cell_def x_def y_def)
  then have xhi: "x \<le> L + 4 * s" and yhi: "y \<le> M + 4 * w"
    unfolding cell_edges0 L_def M_def s_def w_def by simp_all
  from P have "if r = 0 then Lat (SW (cellBox d r c)) \<le> x else Lat (SW (cellBox d r c)) < x"
    "if c = 0 then Lng (SW (cellBox d r c)) \<le> y else Lng (SW (cellBox d r c)) < y"
    by (auto simp: in_cell_def x_def y_def split: if_splits)
  then have xlo: "if r = 0 then L \<le> x else L < x" and ylo: "if c = 0 then M \<le> y else M < y"
    unfolding cell_edges0 L_def M_def by simp_all
  from first_band [OF xhi] obtain i where i: "i < 4" "x \<le> L + real (i + 1) * s"
    "\<forall>i'<i. \<not> x \<le> L + real (i' + 1) * s" "0 < i \<longrightarrow> L + real i * s < x" by blast
  from first_band [OF yhi] obtain j where j: "j < 4" "y \<le> M + real (j + 1) * w"
    "\<forall>j'<j. \<not> y \<le> M + real (j' + 1) * w" "0 < j \<longrightarrow> M + real j * w < y" by blast
  have sp: "latSpacing g = s" "lngSpacing g = w"
    using spacing_cell [OF d B] by (simp_all add: s_def w_def)
  have sb: "sub_box (Box g) s w a b = cellBox (Suc d) (4 * r + a) (4 * c + b)"
    if "a < 4" "b < 4" for a b
    unfolding B s_def w_def using d rc that by (rule sub_box_cell)
  have W: "Within (Point g) (cellBox (Suc d) (4 * r + a) (4 * c + b)) \<longleftrightarrow>
      L + real a * s \<le> x \<and> x \<le> L + real (a + 1) * s \<and>
      M + real b * w \<le> y \<and> y \<le> M + real (b + 1) * w" for a b
    unfolding Within_def cell_edges x_def y_def L_def M_def s_def w_def by auto
  have sW: "in_sub_box g s w a b \<longleftrightarrow>
      L + real a * s \<le> x \<and> x \<le> L + real (a + 1) * s \<and>
      M + real b * w \<le> y \<and> y \<le> M + real (b + 1) * w" if "a < 4" "b < 4" for a b
    unfolding in_sub_box_def sb [OF that] by (rule W)
  have xi: "L + real i * s \<le> x"
  proof (cases "i = 0")
    case True
    with xlo show ?thesis by (auto split: if_splits)
  next
    case False
    with i(4) show ?thesis by simp
  qed
  have yj: "M + real j * w \<le> y"
  proof (cases "j = 0")
    case True
    with ylo show ?thesis by (auto split: if_splits)
  next
    case False
    with j(4) show ?thesis by simp
  qed
  have in1: "in_sub_box g s w i j" unfolding sW [OF i(1) j(1)] using xi yj i(2) j(2) by simp
  have in2: "\<forall>i'<i. \<forall>j'<4. \<not> in_sub_box g s w i' j'"
  proof (intro allI impI)
    fix i' j' :: nat assume a: "i' < i" "j' < 4"
    then have "i' < 4" using i(1) by simp
    from sW [OF this a(2)] i(3) a(1) show "\<not> in_sub_box g s w i' j'" by blast
  qed
  have in3: "\<forall>j'<j. \<not> in_sub_box g s w i j'"
  proof (intro allI impI)
    fix j' :: nat assume a: "j' < j"
    then have "j' < 4" using j(1) by simp
    from sW [OF i(1) this] j(3) a show "\<not> in_sub_box g s w i j'" by blast
  qed
  have "Within (Point g) (Box g)" unfolding B using P by (rule in_cell_Within)
  then have D: "Descend g = Inr (narrowed g (latSpacing g) (lngSpacing g) i j)"
    unfolding Descend_Inr_iff sp using i(1) j(1) in1 in2 in3 by blast
  have r': "4 * r + i < 4 ^ Suc d" and c': "4 * c + j < 4 ^ Suc d"
    using rc i(1) j(1) by simp_all
  have lo_lat: "if 4 * r + i = 0 then L + real i * s \<le> x else L + real i * s < x"
  proof (cases "i = 0")
    case True
    with xlo show ?thesis by (auto split: if_splits)
  next
    case False
    with i(4) show ?thesis by simp
  qed
  have lo_lng: "if 4 * c + j = 0 then M + real j * w \<le> y else M + real j * w < y"
  proof (cases "j = 0")
    case True
    with ylo show ?thesis by (auto split: if_splits)
  next
    case False
    with j(4) show ?thesis by simp
  qed
  have "in_cell (Suc d) (4 * r + i) (4 * c + j) (Point g)"
    unfolding in_cell_def cell_edges
    using r' c' i(2) j(2) lo_lat lo_lng
    unfolding x_def y_def L_def M_def s_def w_def by simp
  with D sb [OF i(1) j(1)] i(1) j(1) show ?thesis unfolding sp by blast
qed

lemma Within_sub_box_mix:
  assumes "Within p (sub_box b ls gs i j)" and "Within p (sub_box b ls gs i' j')"
  shows "Within p (sub_box b ls gs i j')"
  using assms by (auto simp: Within_def sub_box_def split: if_splits)

lemma Descend_cases:
  "Descend g = Inl PointOutsideBox \<or> Descend g = Inl NoMatchingSubBox \<or>
   (\<exists>g'. Descend g = Inr g')"
  by (simp add: Descend_def Let_def split: prod.splits del: outer_loop.simps)

lemma Descend_outside_iff:
  "Descend g = Inl PointOutsideBox \<longleftrightarrow> \<not> Within (Point g) (Box g)"
  by (simp add: Descend_def Let_def split: prod.splits del: outer_loop.simps)

lemma in_sub_box_cell:
  assumes "d \<le> 10" and "Box g = cellBox d r c" and "r < 4 ^ d" and "c < 4 ^ d"
    and "a < 4" and "b < 4"
  shows "in_sub_box g (latSpacing g) (lngSpacing g) a b \<longleftrightarrow>
         Within (Point g) (cellBox (Suc d) (4 * r + a) (4 * c + b))"
proof -
  have "sub_box (Box g) (latSpacing g) (lngSpacing g) a b =
        cellBox (Suc d) (4 * r + a) (4 * c + b)"
    unfolding spacing_cell [OF assms(1,2)] assms(2) using assms(1,3,4,5,6) by (rule sub_box_cell)
  then show ?thesis by (simp add: in_sub_box_def)
qed

lemma Descend_cell_eval:
  assumes d: "d \<le> 10" and B: "Box g = cellBox d r c" and rc: "r < 4 ^ d" "c < 4 ^ d"
    and ij: "i < 4" "j < 4" and 0: "Within (Point g) (Box g)"
    and w: "Within (Point g) (cellBox (Suc d) (4 * r + i) (4 * c + j))"
    and rows: "\<forall>i'<i. Lat (NE (cellBox (Suc d) (4 * r + i') 0)) < Lat (Point g)"
    and cols: "\<forall>j'<j. Lng (NE (cellBox (Suc d) 0 (4 * c + j'))) < Lng (Point g)"
  shows "Descend g =
         Inr (g\<lparr>hash := hash g @ CODES ! i ! j, Box := cellBox (Suc d) (4 * r + i) (4 * c + j)\<rparr>)"
proof -
  let ?W = "in_sub_box g (latSpacing g) (lngSpacing g)"
  have sW: "?W a b \<longleftrightarrow> Within (Point g) (cellBox (Suc d) (4 * r + a) (4 * c + b))"
    if "a < 4" "b < 4" for a b
    using d B rc that by (rule in_sub_box_cell)
  have 1: "?W i j" unfolding sW [OF ij] by (rule w)
  have 2: "\<forall>i'<i. \<forall>j'<4. \<not> ?W i' j'"
  proof (intro allI impI)
    fix i' j' :: nat assume a: "i' < i" "j' < 4"
    then have i': "i' < 4" using ij by simp
    have "Lat (NE (cellBox (Suc d) (4 * r + i') (4 * c + j'))) =
          Lat (NE (cellBox (Suc d) (4 * r + i') 0))" by (simp add: cellBox_def)
    with rows a(1) show "\<not> ?W i' j'"
      unfolding sW [OF i' a(2)] by (auto simp: Within_def)
  qed
  have 3: "\<forall>j'<j. \<not> ?W i j'"
  proof (intro allI impI)
    fix j' :: nat assume a: "j' < j"
    then have j': "j' < 4" using ij by simp
    have "Lng (NE (cellBox (Suc d) (4 * r + i) (4 * c + j'))) =
          Lng (NE (cellBox (Suc d) 0 (4 * c + j')))" by (simp add: cellBox_def)
    with cols a show "\<not> ?W i j'"
      unfolding sW [OF ij(1) j'] by (auto simp: Within_def)
  qed
  have "sub_box (Box g) (latSpacing g) (lngSpacing g) i j =
        cellBox (Suc d) (4 * r + i) (4 * c + j)"
    unfolding spacing_cell [OF d B] B using d rc ij by (rule sub_box_cell)
  then have "narrowed g (latSpacing g) (lngSpacing g) i j =
      g\<lparr>hash := hash g @ CODES ! i ! j, Box := cellBox (Suc d) (4 * r + i) (4 * c + j)\<rparr>"
    by (simp add: narrowed_def)
  moreover have "Descend g = Inr (narrowed g (latSpacing g) (lngSpacing g) i j)"
    unfolding Descend_Inr_iff using 0 1 2 3 ij by blast
  ultimately show ?thesis by simp
qed

lemma Descend_origin:
  "Descend g_origin = Inr (g_origin\<lparr>hash := ''5'', Box := cellBox 1 1 1\<rparr>)"
proof -
  have "Descend g_origin =
    Inr (g_origin\<lparr>hash := hash g_origin @ CODES ! 1 ! 1,
                   Box := cellBox (Suc 0) (4 * 0 + 1) (4 * 0 + 1)\<rparr>)"
  proof (rule Descend_cell_eval)
    show "Box g_origin = cellBox 0 0 0" by (simp add: g_origin_def worldBox_cell)
    show "Within (Point g_origin) (Box g_origin)"
      by (simp add: g_origin_def Within_def worldBox_cell cellBox_def)
    show "Within (Point g_origin) (cellBox (Suc 0) (4 * 0 + 1) (4 * 0 + 1))"
      by (simp add: g_origin_def Within_def cellBox_def)
    show "\<forall>i'<1. Lat (NE (cellBox (Suc 0) (4 * 0 + i') 0)) < Lat (Point g_origin)"
      by (simp add: g_origin_def cellBox_def)
    show "\<forall>j'<1. Lng (NE (cellBox (Suc 0) 0 (4 * 0 + j'))) < Lng (Point g_origin)"
      by (simp add: g_origin_def cellBox_def)
  qed simp_all
  then show ?thesis by (simp add: g_origin_def CODES_def)
qed

lemma round64_quarters:
  assumes "\<bar>m\<bar> \<le> 16"
  shows "round64 (real_of_int m / 4) = real_of_int m / 4"
proof (rule round64_exact [where m = m and k = "- 2"])
  show "real_of_int m / 4 = real_of_int m * 2 powi - 2" by simp
  show "\<bar>m\<bar> < 2 ^ 53" using assms by simp
qed simp

lemma round64_skew: "round64 (1 / 2 ^ 60 - - 1) = 1"
  by (simp add: round64_def ilog2_def rne_def Let_def bitlen_alt_def)

lemma latSpacing_skew: "latSpacing g_skew = 1 / 4"
proof -
  have "fsub (Lat (NE (Box g_skew))) (Lat (SW (Box g_skew))) = 1"
    unfolding fsub_def g_skew_def using round64_skew by simp
  moreover have "round64 (real_of_int 1 / 4) = real_of_int 1 / 4"
    by (rule round64_quarters) simp
  ultimately show ?thesis by (simp add: latSpacing_def fdiv_def)
qed

lemma sub_box_skew:
  assumes "i < 4"
  shows "Lat (NE (sub_box (Box g_skew) (1 / 4) w i j)) \<le> 0"
proof -
  have m: "round64 (real_of_int (int i + 1) / 4) = real_of_int (int i + 1) / 4"
    using assms by (intro round64_quarters) simp
  have a: "round64 (real_of_int (int i - 3) / 4) = real_of_int (int i - 3) / 4"
    using assms by (intro round64_quarters) simp
  have e1: "real (i + 1) * (1 / 4) = real_of_int (int i + 1) / 4" by simp
  have f: "fmul (real (i + 1)) (1 / 4) = real_of_int (int i + 1) / 4"
    unfolding fmul_def e1 by (rule m)
  have e2: "- 1 + real_of_int (int i + 1) / 4 = real_of_int (int i - 3) / 4"
    by (simp add: field_simps)
  have "fadd (- 1) (fmul (real (i + 1)) (1 / 4)) = real_of_int (int i - 3) / 4"
    unfolding fadd_def f e2 by (rule a)
  moreover have "real_of_int (int i - 3) / 4 \<le> 0" using assms by simp
  ultimately show ?thesis by (simp add: sub_box_def g_skew_def)
qed

section \<open>Neighbouring tags: properties\<close>

lemma GetNorthBoxTag_Nil: "GetNorthBoxTag [] = Inl EmptyTag"
  by (simp add: GetNorthBoxTag.simps)

lemma GetEastBoxTag_Nil: "GetEastBoxTag [] = Inl EmptyTag"
  by (simp add: GetEastBoxTag.simps)

lemma code_cases:
  assumes "[c] \<in> set (concat CODES)"
  shows "c \<in> set ''0123456789ABCDEF''"
  using assms by (simp add: CODES_def)

lemma ParseInt16_range:
  assumes "ParseInt16 c = Inr v"
  shows "0 \<le> v \<and> v < 16"
  using assms by (auto simp: ParseInt16_def Let_def split: if_splits)

lemma hex_cases:
  assumes "0 \<le> v" and "v < 16"
  shows "v \<in> {0, 1, 2, 3, 4, 5, 6, 7, 8, 9, 10, 11, 12, 13, 14, 15 :: int}"
  using assms by simp presburger

lemma codeOf_single:
  assumes "0 \<le> v" and "v < 16"
  shows "\<exists>ch. codeOf v = [ch] \<and> ParseInt16 ch = Inr v"
  using hex_cases [OF assms]
  by (elim insertE emptyE; hypsubst) (simp_all add: codeOf_def CODES_def ParseInt16_def)

lemma GetNorthBoxTag_snoc:
  "GetNorthBoxTag (p @ [c]) =
     (case ParseInt16 c of Inl err \<Rightarrow> Inl err
      | Inr v \<Rightarrow>
          if 12 \<le> v then
            (case GetNorthBoxTag p of Inl err \<Rightarrow> Inl err
             | Inr p' \<Rightarrow> Inr (p' @ codeOf (v - 12)))
          else Inr (p @ codeOf (v + 4)))"
  by (subst GetNorthBoxTag.simps) (simp add: Let_def codeOf_def split: sum.splits)

lemma GetEastBoxTag_snoc:
  "GetEastBoxTag (p @ [c]) =
     (case ParseInt16 c of Inl err \<Rightarrow> Inl err
      | Inr v \<Rightarrow>
          if 3 \<le> v mod 4 then
            (case GetEastBoxTag p of Inl err \<Rightarrow> Inl err
             | Inr p' \<Rightarrow> Inr (p' @ codeOf (v - 3)))
          else Inr (p @ codeOf (v + 1)))"
  by (subst GetEastBoxTag.simps) (simp add: Let_def codeOf_def split: sum.splits)

lemma north_digits:
  assumes "0 \<le> v" and "v < 16"
  shows "12 \<le> v \<Longrightarrow> nat (v div 4) = 3 \<and> nat ((v - 12) div 4) = 0 \<and>
           nat ((v - 12) mod 4) = nat (v mod 4)"
    and "\<not> 12 \<le> v \<Longrightarrow> nat ((v + 4) div 4) = Suc (nat (v div 4)) \<and>
           nat ((v + 4) mod 4) = nat (v mod 4)"
  using hex_cases [OF assms] by (elim insertE emptyE; hypsubst; simp)+

lemma east_digits:
  assumes "0 \<le> v" and "v < 16"
  shows "3 \<le> v mod 4 \<Longrightarrow> nat (v mod 4) = 3 \<and> nat ((v - 3) mod 4) = 0 \<and>
           nat ((v - 3) div 4) = nat (v div 4)"
    and "\<not> 3 \<le> v mod 4 \<Longrightarrow> nat ((v + 1) mod 4) = Suc (nat (v mod 4)) \<and>
           nat ((v + 1) div 4) = nat (v div 4)"
  using hex_cases [OF assms] by (elim insertE emptyE; hypsubst; simp)+

lemma rowval_simps [simp]: "rowval [] = 0" "rowval (p @ [c]) = 4 * rowval p + rowdigit c"
  by (simp_all add: rowval_def)

lemma colval_simps [simp]: "colval [] = 0" "colval (p @ [c]) = 4 * colval p + coldigit c"
  by (simp_all add: colval_def)

lemma rowdigit_less: "rowdigit c < 4"
proof (cases "ParseInt16 c")
  case (Inl e)
  then show ?thesis by (simp add: rowdigit_def)
next
  case (Inr v)
  from ParseInt16_range [OF Inr] have "0 \<le> v" "v < 16" by simp_all
  from hex_cases [OF this] show ?thesis
    by (elim insertE emptyE; hypsubst) (simp_all add: rowdigit_def Inr)
qed

lemma coldigit_less: "coldigit c < 4"
proof (cases "ParseInt16 c")
  case (Inl e)
  then show ?thesis by (simp add: coldigit_def)
next
  case (Inr v)
  from ParseInt16_range [OF Inr] have "0 \<le> v" "v < 16" by simp_all
  from hex_cases [OF this] show ?thesis
    by (elim insertE emptyE; hypsubst) (simp_all add: coldigit_def Inr)
qed

lemma rowval_less: "rowval t < 4 ^ length t"
proof (induction t rule: rev_induct)
  case Nil
  then show ?case by simp
next
  case (snoc c p)
  have "4 * rowval p + rowdigit c < 4 * Suc (rowval p)" using rowdigit_less [of c] by simp
  also have "\<dots> \<le> 4 * 4 ^ length p" using snoc by simp
  finally show ?case by simp
qed

lemma colval_less: "colval t < 4 ^ length t"
proof (induction t rule: rev_induct)
  case Nil
  then show ?case by simp
next
  case (snoc c p)
  have "4 * colval p + coldigit c < 4 * Suc (colval p)" using coldigit_less [of c] by simp
  also have "\<dots> \<le> 4 * 4 ^ length p" using snoc by simp
  finally show ?case by simp
qed

lemma GetNorthBoxTag_step:
  "GetNorthBoxTag t = Inr t' \<Longrightarrow>
     length t' = length t \<and> rowval t' = Suc (rowval t) \<and> colval t' = colval t"
proof (induction t arbitrary: t' rule: rev_induct)
  case Nil
  then show ?case by (simp add: GetNorthBoxTag.simps)
next
  case (snoc c p)
  from snoc.prems obtain v where v: "ParseInt16 c = Inr v"
    by (auto simp: GetNorthBoxTag_snoc split: sum.splits)
  from ParseInt16_range [OF v] have r: "0 \<le> v" "v < 16" by simp_all
  show ?case
  proof (cases "12 \<le> v")
    case True
    with r have r': "0 \<le> v - 12" "v - 12 < 16" by simp_all
    from codeOf_single [OF r'] obtain ch
      where ch: "codeOf (v - 12) = [ch]" "ParseInt16 ch = Inr (v - 12)" by blast
    from snoc.prems v True obtain p' where p': "GetNorthBoxTag p = Inr p'" "t' = p' @ [ch]"
      by (auto simp: GetNorthBoxTag_snoc ch split: sum.splits)
    from snoc.IH [OF p'(1)] p'(2) north_digits(1) [OF r True] show ?thesis
      by (simp add: rowdigit_def coldigit_def v ch)
  next
    case False
    with r have r': "0 \<le> v + 4" "v + 4 < 16" by simp_all
    from codeOf_single [OF r'] obtain ch
      where ch: "codeOf (v + 4) = [ch]" "ParseInt16 ch = Inr (v + 4)" by blast
    from snoc.prems v False have t': "t' = p @ [ch]"
      by (simp add: GetNorthBoxTag_snoc ch)
    from north_digits(2) [OF r False] show ?thesis
      by (simp add: t' rowdigit_def coldigit_def v ch)
  qed
qed

lemma GetEastBoxTag_step:
  "GetEastBoxTag t = Inr t' \<Longrightarrow>
     length t' = length t \<and> colval t' = Suc (colval t) \<and> rowval t' = rowval t"
proof (induction t arbitrary: t' rule: rev_induct)
  case Nil
  then show ?case by (simp add: GetEastBoxTag.simps)
next
  case (snoc c p)
  from snoc.prems obtain v where v: "ParseInt16 c = Inr v"
    by (auto simp: GetEastBoxTag_snoc split: sum.splits)
  from ParseInt16_range [OF v] have r: "0 \<le> v" "v < 16" by simp_all
  show ?case
  proof (cases "3 \<le> v mod 4")
    case True
    with r have r': "0 \<le> v - 3" "v - 3 < 16" by presburger+
    from codeOf_single [OF r'] obtain ch
      where ch: "codeOf (v - 3) = [ch]" "ParseInt16 ch = Inr (v - 3)" by blast
    from snoc.prems v True obtain p' where p': "GetEastBoxTag p = Inr p'" "t' = p' @ [ch]"
      by (auto simp: GetEastBoxTag_snoc ch split: sum.splits)
    from snoc.IH [OF p'(1)] p'(2) east_digits(1) [OF r True] show ?thesis
      by (simp add: rowdigit_def coldigit_def v ch)
  next
    case False
    with r have r': "0 \<le> v + 1" "v + 1 < 16" by presburger+
    from codeOf_single [OF r'] obtain ch
      where ch: "codeOf (v + 1) = [ch]" "ParseInt16 ch = Inr (v + 1)" by blast
    from snoc.prems v False have t': "t' = p @ [ch]"
      by (simp add: GetEastBoxTag_snoc ch)
    from east_digits(2) [OF r False] show ?thesis
      by (simp add: t' rowdigit_def coldigit_def v ch)
  qed
qed

lemma GetEastBoxTag_four_snoc:
  assumes c: "[c] \<in> set (concat CODES)"
    and e: "GetEastBoxTag (p @ [c]) = Inr T1" "GetEastBoxTag T1 = Inr T2"
           "GetEastBoxTag T2 = Inr T3" "GetEastBoxTag T3 = Inr T4"
  shows "\<exists>p'. GetEastBoxTag p = Inr p' \<and> T4 = p' @ [c]"
proof -
  from code_cases [OF c] have "c \<in> set ''0123'' \<or> c \<in> set ''4567'' \<or>
      c \<in> set ''89AB'' \<or> c \<in> set ''CDEF''"
    by auto
  with e show ?thesis
    by (elim disjE; simp; elim disjE; hypsubst)
       (auto simp: GetEastBoxTag_snoc ParseInt16_def codeOf_def CODES_def split: sum.splits)
qed

section \<open>Termination of the loops\<close>

termination generate_loop
  by (relation "measure (\<lambda>(g, l). MAXDEPTH - GetDepth g)")
     (auto simp: GetDepth_def dest: Descend_length)

termination descend_loop
  by (relation "measure (\<lambda>(vb, sw, ne, se, nw). MAXDEPTH - GetDepth sw)")
     (auto simp: GetDepth_def dest: Descend_length)

termination north_loop
proof (relation "measure (\<lambda>(cursor, endtop, tags). 4 ^ length cursor - rowval cursor)")
  show "wf (measure (\<lambda>(cursor, endtop, tags). 4 ^ length cursor - rowval cursor))" by simp
next
  fix cursor endtop :: string and geoboxtags :: "GeoBoxTag list" and cursor'
  assume "GetNorthBoxTag cursor = Inr cursor'"
  from GetNorthBoxTag_step [OF this] rowval_less [of cursor']
  show "((cursor', endtop, geoboxtags @ [cursor]), cursor, endtop, geoboxtags)
        \<in> measure (\<lambda>(cursor, endtop, tags). 4 ^ length cursor - rowval cursor)"
    by simp
qed

termination east_loop
proof (relation "measure (\<lambda>(bot, top, endbot, tags). 4 ^ length bot - colval bot)")
  show "wf (measure (\<lambda>(bot, top, endbot, tags). 4 ^ length bot - colval bot))" by simp
next
  fix botcursor topcursor endbot :: string and geoboxtags x2 :: "GeoBoxTag list"
    and endtop botcursor' topcursor'
  assume "GetEastBoxTag botcursor = Inr botcursor'"
  from GetEastBoxTag_step [OF this] colval_less [of botcursor']
  show "((botcursor', topcursor', endbot, x2), botcursor, topcursor, endbot, geoboxtags)
        \<in> measure (\<lambda>(bot, top, endbot, tags). 4 ^ length bot - colval bot)"
    by simp
qed

declare generate_loop.simps [simp del] descend_loop.simps [simp del]
  north_loop.simps [simp del] east_loop.simps [simp del]

section \<open>Tag generation and the descent of the corners\<close>

lemma ext_chain_step:
  "ext_chain h ts \<Longrightarrow> Suc k < length ts \<Longrightarrow> \<exists>c. ts ! Suc k = ts ! k @ [c]"
proof (induction ts arbitrary: h k)
  case Nil
  then show ?case by simp
next
  case (Cons t ts)
  show ?case
  proof (cases k)
    case 0
    with Cons.prems show ?thesis by (cases ts) auto
  next
    case (Suc k')
    with Cons.prems Cons.IH [of t k'] show ?thesis by simp
  qed
qed

lemma ext_chain_length:
  "ext_chain h ts \<Longrightarrow> k < length ts \<Longrightarrow> length (ts ! k) = length h + Suc k"
proof (induction ts arbitrary: h k)
  case Nil
  then show ?case by simp
next
  case (Cons t ts)
  show ?case
  proof (cases k)
    case 0
    with Cons.prems show ?thesis by auto
  next
    case (Suc k')
    with Cons.prems Cons.IH [of t k'] show ?thesis by auto
  qed
qed

lemma generate_loop_cell:
  assumes "length (hash g) = d" and "d \<le> 10" and "Box g = cellBox d r c"
    and "in_cell d r c (Point g)"
  shows "\<exists>ts. generate_loop g l = (l\<lparr>GeoBoxTags := GeoBoxTags l @ ts\<rparr>, None) \<and>
              length ts = 10 - d \<and> ext_chain (hash g) ts"
  using assms
proof (induction "10 - d" arbitrary: g l d r c)
  case 0
  then have "\<not> GetDepth g < MAXDEPTH" by (simp add: GetDepth_def MAXDEPTH_def)
  then have "generate_loop g l = (l, None)" by (subst generate_loop.simps) simp
  with 0 show ?case by simp
next
  case (Suc n)
  then have d: "d < 10" "GetDepth g < MAXDEPTH" by (simp_all add: GetDepth_def MAXDEPTH_def)
  from Descend_in_cell [OF Suc.prems(2,3,4)] obtain i j where ij: "i < 4" "j < 4"
    and D: "Descend g = Inr (narrowed g (latSpacing g) (lngSpacing g) i j)"
    and B: "sub_box (Box g) (latSpacing g) (lngSpacing g) i j =
            cellBox (Suc d) (4 * r + i) (4 * c + j)"
    and P: "in_cell (Suc d) (4 * r + i) (4 * c + j) (Point g)" by blast
  define g' where "g' = narrowed g (latSpacing g) (lngSpacing g) i j"
  obtain ch where ch: "CODES ! i ! j = [ch]"
    using CODES_length [OF ij] by (cases "CODES ! i ! j") auto
  have g': "hash g' = hash g @ [ch]" "Box g' = cellBox (Suc d) (4 * r + i) (4 * c + j)"
    "Point g' = Point g"
    by (simp_all add: g'_def narrowed_def ch B)
  have "n = 10 - Suc d" using Suc.hyps(2) by simp
  moreover have "length (hash g') = Suc d" using Suc.prems(1) g'(1) by simp
  moreover have "Suc d \<le> 10" using d(1) by simp
  moreover have "in_cell (Suc d) (4 * r + i) (4 * c + j) (Point g')" using P g'(3) by simp
  ultimately obtain ts where ts:
    "generate_loop g' (AddGeoBoxTag (hash g') l) =
       ((AddGeoBoxTag (hash g') l)\<lparr>GeoBoxTags := GeoBoxTags (AddGeoBoxTag (hash g') l) @ ts\<rparr>, None)"
    "length ts = 10 - Suc d" "ext_chain (hash g') ts"
    using Suc.hyps(1) [of "Suc d" g' "4 * r + i" "4 * c + j" "AddGeoBoxTag (hash g') l"] g'(2)
    by blast
  have "generate_loop g l = generate_loop g' (AddGeoBoxTag (hash g') l)"
    by (subst generate_loop.simps) (simp add: d(2) D g'_def)
  also have "\<dots> = (l\<lparr>GeoBoxTags := GeoBoxTags l @ (hash g' # ts)\<rparr>, None)"
    unfolding ts(1) by (simp add: AddGeoBoxTag_def)
  finally have "generate_loop g l = (l\<lparr>GeoBoxTags := GeoBoxTags l @ (hash g' # ts)\<rparr>, None)" .
  moreover have "length (hash g' # ts) = 10 - d" using ts(2) d(1) by simp
  moreover have "ext_chain (hash g) (hash g' # ts)" using ts(3) g'(1) by simp
  ultimately show ?case by blast
qed

lemma GenerateGeoBoxTags_chain:
  assumes "- 90 \<le> Lat (Location l)" and "Lat (Location l) \<le> 90"
    and "- 180 \<le> Lng (Location l)" and "Lng (Location l) \<le> 180"
  shows "\<exists>ts. GenerateGeoBoxTags l = (l\<lparr>GeoBoxTags := ts\<rparr>, None) \<and>
              length ts = 10 \<and> ext_chain [] ts"
proof -
  define g where "g = \<lparr>hash = [], Box = worldBox, Point = GetLocation l\<rparr>"
  have "in_cell 0 0 0 (Point g)"
    using assms by (intro in_cell_world) (simp_all add: g_def GetLocation_def)
  moreover have "length (hash g) = 0" "Box g = cellBox 0 0 0"
    by (simp_all add: g_def worldBox_cell)
  ultimately obtain ts where ts:
    "generate_loop g (ClearGeoBoxTags l) =
       ((ClearGeoBoxTags l)\<lparr>GeoBoxTags := GeoBoxTags (ClearGeoBoxTags l) @ ts\<rparr>, None)"
    "length ts = 10 - 0" "ext_chain (hash g) ts"
    using generate_loop_cell [of g 0 0 0 "ClearGeoBoxTags l"] by auto
  have "GenerateGeoBoxTags l = (l\<lparr>GeoBoxTags := ts\<rparr>, None)"
    unfolding GenerateGeoBoxTags_def Let_def g_def [symmetric] ts(1)
    by (simp add: ClearGeoBoxTags_def)
  with ts(2,3) show ?thesis by (auto simp: g_def)
qed

lemma GenerateGeoBoxTags_outside:
  assumes "\<not> Within (Location l) worldBox"
  shows "GenerateGeoBoxTags l = (l\<lparr>GeoBoxTags := []\<rparr>, Some PointOutsideBox)"
proof -
  define g where "g = \<lparr>hash = [], Box = worldBox, Point = GetLocation l\<rparr>"
  have "Descend g = Inl PointOutsideBox"
    unfolding Descend_outside_iff using assms by (simp add: g_def GetLocation_def)
  moreover have "GetDepth g < MAXDEPTH" by (simp add: g_def GetDepth_def MAXDEPTH_def)
  ultimately have "generate_loop g (ClearGeoBoxTags l) = (ClearGeoBoxTags l, Some PointOutsideBox)"
    by (subst generate_loop.simps) simp
  then show ?thesis
    unfolding GenerateGeoBoxTags_def Let_def g_def [symmetric]
    by (simp add: ClearGeoBoxTags_def)
qed

lemma init_BOXSIZES_eq:
  "n \<le> 11 \<Longrightarrow> init_BOXSIZES n = map (\<lambda>i. \<lparr>Lat = 180 / 4 ^ i, Lng = 360 / 4 ^ i\<rparr>) [0..<n]"
proof (induction n)
  case 0
  then show ?case by simp
next
  case (Suc n)
  then have IH: "init_BOXSIZES n = map (\<lambda>i. \<lparr>Lat = 180 / 4 ^ i, Lng = 360 / 4 ^ i\<rparr>) [0..<n]"
    by simp
  show ?case
  proof (cases n)
    case 0
    then show ?thesis by (simp add: MAXLAT_def MINLAT_def MAXLNG_def MINLNG_def)
  next
    case (Suc m)
    have m: "m \<le> 10" using Suc.prems \<open>n = Suc m\<close> by simp
    have a: "round64 (180 / 4 ^ m / 4) = 180 / 4 ^ m / 4"
    proof (rule round64_eqI)
      show "180 / 4 ^ m / 4 = real 4 * 45 / 4 ^ Suc m" by simp
      show "round64 (real 4 * 45 / 4 ^ Suc m) = real 4 * 45 / 4 ^ Suc m"
        using m by (intro round64_span_num) simp_all
    qed
    have b: "round64 (360 / 4 ^ m / 4) = 360 / 4 ^ m / 4"
    proof (rule round64_eqI)
      show "360 / 4 ^ m / 4 = real 8 * 45 / 4 ^ Suc m" by simp
      show "round64 (real 8 * 45 / 4 ^ Suc m) = real 8 * 45 / 4 ^ Suc m"
        using m by (intro round64_span_num) simp_all
    qed
    have "init_BOXSIZES n ! (n - 1) = \<lparr>Lat = 180 / 4 ^ m, Lng = 360 / 4 ^ m\<rparr>"
      unfolding IH using \<open>n = Suc m\<close> by (simp add: nth_append)
    then have "init_BOXSIZES (Suc n) =
       init_BOXSIZES n @ [\<lparr>Lat = fdiv (180 / 4 ^ m) 4, Lng = fdiv (360 / 4 ^ m) 4\<rparr>]"
      using \<open>n = Suc m\<close> by (simp add: Let_def)
    also have "\<dots> = init_BOXSIZES n @ [\<lparr>Lat = 180 / 4 ^ n, Lng = 360 / 4 ^ n\<rparr>]"
      unfolding fdiv_def a b using \<open>n = Suc m\<close> by simp
    finally show ?thesis unfolding IH by simp
  qed
qed

lemma BOXSIZES_at_eq:
  "BOXSIZES_at k =
     (if k < 11 then Inr \<lparr>Lat = 180 / 4 ^ k, Lng = 360 / 4 ^ k\<rparr> else Inl (IndexOutOfRange k))"
proof -
  have e: "BOXSIZES = map (\<lambda>i. \<lparr>Lat = 180 / 4 ^ i, Lng = 360 / 4 ^ i\<rparr>) [0..<11]"
    unfolding BOXSIZES_def MAXDEPTH_def using init_BOXSIZES_eq [of 11] by simp
  show ?thesis unfolding BOXSIZES_at_def e by simp
qed

lemma CODES_digits:
  assumes "i < 4" and "j < 4"
  shows "\<exists>ch. CODES ! i ! j = [ch] \<and> rowdigit ch = i \<and> coldigit ch = j"
proof -
  from assms have "i \<in> {0, 1, 2, 3}" "j \<in> {0, 1, 2, 3}" by auto
  then show ?thesis
    by (elim insertE emptyE; hypsubst)
       (simp_all add: CODES_def rowdigit_def coldigit_def ParseInt16_def)
qed

lemma Descend_cursor_ok:
  assumes "cursor_ok d g" and "d \<le> 10"
  shows "\<exists>g'. Descend g = Inr g' \<and> cursor_ok (Suc d) g' \<and> Point g' = Point g"
proof -
  from assms(1) have l: "length (hash g) = d"
    and B: "Box g = cellBox d (rowval (hash g)) (colval (hash g))"
    and P: "in_cell d (rowval (hash g)) (colval (hash g)) (Point g)"
    by (simp_all add: cursor_ok_def)
  from Descend_in_cell [OF assms(2) B P] obtain i j where ij: "i < 4" "j < 4"
    and D: "Descend g = Inr (narrowed g (latSpacing g) (lngSpacing g) i j)"
    and B': "sub_box (Box g) (latSpacing g) (lngSpacing g) i j =
            cellBox (Suc d) (4 * rowval (hash g) + i) (4 * colval (hash g) + j)"
    and P': "in_cell (Suc d) (4 * rowval (hash g) + i) (4 * colval (hash g) + j) (Point g)"
    by blast
  from CODES_digits [OF ij] obtain ch where ch: "CODES ! i ! j = [ch]"
    "rowdigit ch = i" "coldigit ch = j" by blast
  let ?g' = "narrowed g (latSpacing g) (lngSpacing g) i j"
  have "hash ?g' = hash g @ [ch]" "Point ?g' = Point g"
    "Box ?g' = cellBox (Suc d) (4 * rowval (hash g) + i) (4 * colval (hash g) + j)"
    by (simp_all add: narrowed_def ch B')
  then have "cursor_ok (Suc d) ?g'" using l P' ch by (simp add: cursor_ok_def)
  with D \<open>Point ?g' = Point g\<close> show ?thesis by blast
qed

lemma cursor_ok_world:
  assumes "- 90 \<le> Lat p" "Lat p \<le> 90" "- 180 \<le> Lng p" "Lng p \<le> 180"
  shows "cursor_ok 0 \<lparr>hash = [], Box = worldBox, Point = p\<rparr>"
  using in_cell_world [OF assms] by (simp add: cursor_ok_def worldBox_cell)

lemma boxsize_ge:
  assumes "d < 10"
  shows "(180::real) / 4 ^ 10 \<le> 180 / 4 ^ Suc d" and "(360::real) / 4 ^ 10 \<le> 360 / 4 ^ Suc d"
proof -
  have p: "(4::real) ^ Suc d \<le> 4 ^ 10" using assms by (intro power_increasing) simp_all
  show "(180::real) / 4 ^ 10 \<le> 180 / 4 ^ Suc d"
    by (rule divide_left_mono [OF p]) simp_all
  show "(360::real) / 4 ^ 10 \<le> 360 / 4 ^ Suc d"
    by (rule divide_left_mono [OF p]) simp_all
qed

lemma descend_loop_small:
  assumes "\<bar>fsub (Lat (NE vb)) (Lat (SW vb))\<bar> < 180 / 4 ^ 10"
    and "\<bar>fsub (Lng (NE vb)) (Lng (SW vb))\<bar> < 360 / 4 ^ 10"
    and "cursor_ok d sw" "cursor_ok d ne" "cursor_ok d se" "cursor_ok d nw" and "d \<le> 10"
  shows "descend_loop vb (sw, ne, se, nw) = Inl (IndexOutOfRange 11)"
  using assms(3-)
proof (induction "10 - d" arbitrary: d sw ne se nw)
  case 0
  then have "GetDepth sw + 1 = 11" by (simp add: GetDepth_def cursor_ok_def)
  then show ?case by (subst descend_loop.simps) (simp add: BOXSIZES_at_eq)
next
  case (Suc n)
  then have d: "d < 10" by simp
  then have d': "GetDepth sw < 10" "GetDepth sw < MAXDEPTH" "GetDepth sw = d"
    using Suc.prems(1) by (simp_all add: GetDepth_def cursor_ok_def MAXDEPTH_def)
  have z: "\<bar>fsub (Lat (NE vb)) (Lat (SW vb))\<bar> < 180 / 4 ^ Suc d"
    "\<bar>fsub (Lng (NE vb)) (Lng (SW vb))\<bar> < 360 / 4 ^ Suc d"
    using assms(1,2) boxsize_ge [OF d] by linarith+
  obtain sw' ne' se' nw' where
    D: "Descend sw = Inr sw'" "Descend ne = Inr ne'" "Descend se = Inr se'" "Descend nw = Inr nw'"
    and ok: "cursor_ok (Suc d) sw'" "cursor_ok (Suc d) ne'" "cursor_ok (Suc d) se'"
      "cursor_ok (Suc d) nw'"
    using Descend_cursor_ok [OF Suc.prems(1,5)] Descend_cursor_ok [OF Suc.prems(2,5)]
      Descend_cursor_ok [OF Suc.prems(3,5)] Descend_cursor_ok [OF Suc.prems(4,5)]
    by blast
  have "BOXSIZES_at (GetDepth sw + 1) = Inr \<lparr>Lat = 180 / 4 ^ Suc d, Lng = 360 / 4 ^ Suc d\<rparr>"
    using d by (simp add: BOXSIZES_at_eq d'(3))
  then have "descend_loop vb (sw, ne, se, nw) = descend_loop vb (sw', ne', se', nw')"
    using z d'(2) by (subst descend_loop.simps) (simp add: D)
  also have "\<dots> = Inl (IndexOutOfRange 11)"
    using Suc.hyps(2) d by (intro Suc.hyps(1) [of "Suc d"] ok) simp_all
  finally show ?case .
qed

lemma GeoBoxTagsFromViewBounds_small:
  assumes "- 90 \<le> Lat (SW vb)" "Lat (SW vb) \<le> Lat (NE vb)" "Lat (NE vb) \<le> 90"
    and "- 180 \<le> Lng (SW vb)" "Lng (SW vb) \<le> Lng (NE vb)" "Lng (NE vb) \<le> 180"
    and "\<bar>fsub (Lat (NE vb)) (Lat (SW vb))\<bar> < 180 / 4 ^ 10"
    and "\<bar>fsub (Lng (NE vb)) (Lng (SW vb))\<bar> < 360 / 4 ^ 10"
  shows "GeoBoxTagsFromViewBounds vb = Inl (IndexOutOfRange 11)"
proof -
  have "descend_loop vb
     (\<lparr>hash = [], Box = worldBox, Point = SW vb\<rparr>, \<lparr>hash = [], Box = worldBox, Point = NE vb\<rparr>,
      \<lparr>hash = [], Box = worldBox, Point = \<lparr>Lat = Lat (SW vb), Lng = Lng (NE vb)\<rparr>\<rparr>,
      \<lparr>hash = [], Box = worldBox, Point = \<lparr>Lat = Lat (NE vb), Lng = Lng (SW vb)\<rparr>\<rparr>)
     = Inl (IndexOutOfRange 11)"
    using assms by (intro descend_loop_small [where d = 0] cursor_ok_world) simp_all
  then show ?thesis by (simp add: GeoBoxTagsFromViewBounds_def)
qed

lemma round64_tiny: "round64 (1 / 2 ^ 20) = 1 / 2 ^ 20"
  by (rule round64_exact [where m = 1 and k = "- 20"]) simp_all

lemma round64_180_360: "round64 180 = 180" "round64 360 = 360"
proof -
  have "round64 (real 4 * 45 / 4 ^ 0) = real 4 * 45 / 4 ^ 0" by (rule round64_span) simp_all
  then show "round64 180 = 180" by simp
  have "round64 (real 8 * 45 / 4 ^ 0) = real 8 * 45 / 4 ^ 0" by (rule round64_span) simp_all
  then show "round64 360 = 360" by simp
qed

section \<open>The tiling of a region\<close>

lemma tagBox_simps: "tagBox [] = worldBox" "tagBox (p @ [c]) = narrow (tagBox p) c"
  by (simp_all add: tagBox_def)

lemma narrow_cell:
  assumes "d \<le> 10" and "r < 4 ^ d" and "c < 4 ^ d"
  shows "narrow (cellBox d r c) ch = cellBox (Suc d) (4 * r + rowdigit ch) (4 * c + coldigit ch)"
proof -
  define g where "g = \<lparr>hash = [], Box = cellBox d r c, Point = \<lparr>Lat = 0, Lng = 0\<rparr>\<rparr>"
  have B: "Box g = cellBox d r c" by (simp add: g_def)
  have "narrow (cellBox d r c) ch =
        sub_box (Box g) (latSpacing g) (lngSpacing g) (rowdigit ch) (coldigit ch)"
    by (simp add: narrow_def latSpacing_def lngSpacing_def g_def)
  also have "\<dots> = cellBox (Suc d) (4 * r + rowdigit ch) (4 * c + coldigit ch)"
    unfolding spacing_cell [OF assms(1) B] B
    using assms rowdigit_less coldigit_less by (rule sub_box_cell)
  finally show ?thesis .
qed

lemma tagBox_cell:
  "length t \<le> 11 \<Longrightarrow> tagBox t = cellBox (length t) (rowval t) (colval t)"
proof (induction t rule: rev_induct)
  case Nil
  then show ?case by (simp add: tagBox_simps worldBox_cell)
next
  case (snoc c p)
  then have l: "length p \<le> 10" by simp
  with snoc have "tagBox p = cellBox (length p) (rowval p) (colval p)" by simp
  then have "tagBox (p @ [c]) = narrow (cellBox (length p) (rowval p) (colval p)) c"
    by (simp add: tagBox_simps)
  also have "\<dots> = cellBox (Suc (length p)) (4 * rowval p + rowdigit c) (4 * colval p + coldigit c)"
    using l rowval_less colval_less by (rule narrow_cell)
  finally show ?case by simp
qed

lemma Descend_tagBox:
  assumes "Descend g = Inr g'" and "Box g = tagBox (hash g)"
  shows "Box g' = tagBox (hash g')"
proof -
  from assms(1) obtain i j where ij: "i < 4" "j < 4"
    and g': "g' = narrowed g (latSpacing g) (lngSpacing g) i j"
    unfolding Descend_Inr_iff by blast
  from CODES_digits [OF ij] obtain ch where ch: "CODES ! i ! j = [ch]"
    "rowdigit ch = i" "coldigit ch = j" by blast
  have "Box g' = narrow (Box g) ch"
    by (simp add: g' narrowed_def narrow_def latSpacing_def lngSpacing_def ch)
  moreover have "hash g' = hash g @ [ch]" by (simp add: g' narrowed_def ch)
  ultimately show ?thesis by (simp add: tagBox_simps assms(2))
qed

lemma cell_lat_mono:
  assumes "r \<le> r'"
  shows "Lat (SW (cellBox d r c)) \<le> Lat (SW (cellBox d r' c'))"
    and "Lat (NE (cellBox d r c)) \<le> Lat (NE (cellBox d r' c'))"
proof -
  have "real r * 180 \<le> real r' * 180" "real (r + 1) * 180 \<le> real (r' + 1) * 180"
    using assms by simp_all
  then have "real r * 180 / 4 ^ d \<le> real r' * 180 / 4 ^ d"
    "real (r + 1) * 180 / 4 ^ d \<le> real (r' + 1) * 180 / 4 ^ d"
    by (simp_all add: divide_right_mono)
  then show "Lat (SW (cellBox d r c)) \<le> Lat (SW (cellBox d r' c'))"
    "Lat (NE (cellBox d r c)) \<le> Lat (NE (cellBox d r' c'))"
    by (simp_all add: cellBox_def)
qed

lemma cell_lng_mono:
  assumes "c \<le> c'"
  shows "Lng (SW (cellBox d r c)) \<le> Lng (SW (cellBox d r' c'))"
    and "Lng (NE (cellBox d r c)) \<le> Lng (NE (cellBox d r' c'))"
proof -
  have "real c * 360 \<le> real c' * 360" "real (c + 1) * 360 \<le> real (c' + 1) * 360"
    using assms by simp_all
  then have "real c * 360 / 4 ^ d \<le> real c' * 360 / 4 ^ d"
    "real (c + 1) * 360 / 4 ^ d \<le> real (c' + 1) * 360 / 4 ^ d"
    by (simp_all add: divide_right_mono)
  then show "Lng (SW (cellBox d r c)) \<le> Lng (SW (cellBox d r' c'))"
    "Lng (NE (cellBox d r c)) \<le> Lng (NE (cellBox d r' c'))"
    by (simp_all add: cellBox_def)
qed

lemma cell_adjacent:
  "Lat (NE (cellBox d r c)) = Lat (SW (cellBox d (Suc r) c'))"
  "Lng (NE (cellBox d r c)) = Lng (SW (cellBox d r' (Suc c)))"
  by (simp_all add: cellBox_def)

lemma cell_lo_le_hi:
  "Lat (SW (cellBox d r c)) \<le> Lat (NE (cellBox d r c))"
  "Lng (SW (cellBox d r c)) \<le> Lng (NE (cellBox d r c))"
  by (simp_all add: cellBox_def divide_right_mono)

lemma in_cell_row_le:
  assumes "in_cell d r c p" and "in_cell d r' c' p'" and "Lat p \<le> Lat p'"
  shows "r \<le> r'"
proof (rule ccontr)
  assume "\<not> r \<le> r'"
  then have lt: "Suc r' \<le> r" and "r \<noteq> 0" by simp_all
  with assms(1) have "Lat (SW (cellBox d r c)) < Lat p" by (simp add: in_cell_def)
  moreover from assms(2) have "Lat p' \<le> Lat (NE (cellBox d r' c'))" by (simp add: in_cell_def)
  moreover have "Lat (NE (cellBox d r' c')) = Lat (SW (cellBox d (Suc r') c))"
    by (rule cell_adjacent)
  moreover have "Lat (SW (cellBox d (Suc r') c)) \<le> Lat (SW (cellBox d r c))"
    using lt by (rule cell_lat_mono)
  ultimately show False using assms(3) by linarith
qed

lemma in_cell_col_le:
  assumes "in_cell d r c p" and "in_cell d r' c' p'" and "Lng p \<le> Lng p'"
  shows "c \<le> c'"
proof (rule ccontr)
  assume "\<not> c \<le> c'"
  then have lt: "Suc c' \<le> c" and "c \<noteq> 0" by simp_all
  with assms(1) have "Lng (SW (cellBox d r c)) < Lng p" by (simp add: in_cell_def)
  moreover from assms(2) have "Lng p' \<le> Lng (NE (cellBox d r' c'))" by (simp add: in_cell_def)
  moreover have "Lng (NE (cellBox d r' c')) = Lng (SW (cellBox d r (Suc c')))"
    by (rule cell_adjacent)
  moreover have "Lng (SW (cellBox d r (Suc c'))) \<le> Lng (SW (cellBox d r c))"
    using lt by (rule cell_lng_mono)
  ultimately show False using assms(3) by linarith
qed

lemma descend_loop_ok:
  assumes "cursor_ok d sw" "cursor_ok d ne" "cursor_ok d se" "cursor_ok d nw" and "d \<le> 10"
    and "descend_loop vb (sw, ne, se, nw) = Inr (sw', ne', se', nw')"
  shows "\<exists>d'\<le>10. cursor_ok d' sw' \<and> cursor_ok d' ne' \<and> cursor_ok d' se' \<and> cursor_ok d' nw' \<and>
           Point sw' = Point sw \<and> Point ne' = Point ne \<and>
           Point se' = Point se \<and> Point nw' = Point nw"
  using assms
proof (induction "10 - d" arbitrary: d sw ne se nw)
  case 0
  then have "GetDepth sw + 1 = 11" by (simp add: GetDepth_def cursor_ok_def)
  then have "descend_loop vb (sw, ne, se, nw) = Inl (IndexOutOfRange 11)"
    by (subst descend_loop.simps) (simp add: BOXSIZES_at_eq)
  with "0.prems"(6) show ?case by simp
next
  case (Suc n)
  then have d: "d < 10" by simp
  then have d': "GetDepth sw < MAXDEPTH" "GetDepth sw = d"
    using Suc.prems(1) by (simp_all add: GetDepth_def cursor_ok_def MAXDEPTH_def)
  have bs: "BOXSIZES_at (GetDepth sw + 1) = Inr \<lparr>Lat = 180 / 4 ^ Suc d, Lng = 360 / 4 ^ Suc d\<rparr>"
    using d by (simp add: BOXSIZES_at_eq d'(2))
  let ?go = "180 / 4 ^ Suc d > \<bar>fsub (Lat (NE vb)) (Lat (SW vb))\<bar> \<and>
             360 / 4 ^ Suc d > \<bar>fsub (Lng (NE vb)) (Lng (SW vb))\<bar>"
  show ?case
  proof (cases ?go)
    case False
    then have "descend_loop vb (sw, ne, se, nw) = Inr (sw, ne, se, nw)"
      using bs by (subst descend_loop.simps) auto
    with Suc.prems show ?thesis by auto
  next
    case True
    obtain sw1 ne1 se1 nw1 where
      D: "Descend sw = Inr sw1" "Descend ne = Inr ne1" "Descend se = Inr se1"
        "Descend nw = Inr nw1"
      and ok: "cursor_ok (Suc d) sw1" "cursor_ok (Suc d) ne1" "cursor_ok (Suc d) se1"
        "cursor_ok (Suc d) nw1"
      and pt: "Point sw1 = Point sw" "Point ne1 = Point ne" "Point se1 = Point se"
        "Point nw1 = Point nw"
      using Descend_cursor_ok [OF Suc.prems(1,5)] Descend_cursor_ok [OF Suc.prems(2,5)]
        Descend_cursor_ok [OF Suc.prems(3,5)] Descend_cursor_ok [OF Suc.prems(4,5)]
      by blast
    have "descend_loop vb (sw, ne, se, nw) = descend_loop vb (sw1, ne1, se1, nw1)"
      using bs True d'(1) by (subst descend_loop.simps) (simp add: D)
    with Suc.prems(6) have r: "descend_loop vb (sw1, ne1, se1, nw1) = Inr (sw', ne', se', nw')"
      by simp
    have "n = 10 - Suc d" "Suc d \<le> 10" using Suc.hyps(2) d by simp_all
    from Suc.hyps(1) [OF this(1) ok this(2) r] pt show ?thesis by simp
  qed
qed

lemma north_loop_rows:
  "north_loop cursor endtop acc = Inr out \<Longrightarrow>
     rowval cursor \<le> rowval endtop \<and>
     (\<exists>new. out = acc @ new \<and>
        (\<forall>t\<in>set new. length t = length cursor \<and> colval t = colval cursor \<and>
                      rowval cursor \<le> rowval t \<and> rowval t < rowval endtop))"
proof (induction cursor endtop acc arbitrary: out rule: north_loop.induct)
  case (1 cursor endtop acc)
  show ?case
  proof (cases "cursor = endtop")
    case True
    with "1.prems" have "out = acc" by (subst (asm) north_loop.simps) simp
    with True show ?thesis by simp
  next
    case False
    with "1.prems" obtain c' where c': "GetNorthBoxTag cursor = Inr c'"
      and r: "north_loop c' endtop (acc @ [cursor]) = Inr out"
      by (subst (asm) north_loop.simps) (auto split: sum.splits)
    from GetNorthBoxTag_step [OF c'] have s: "length c' = length cursor"
      "rowval c' = Suc (rowval cursor)" "colval c' = colval cursor" by simp_all
    from "1.IH" [OF False c' r] obtain new where le: "rowval c' \<le> rowval endtop"
      and new: "out = (acc @ [cursor]) @ new"
        "\<forall>t\<in>set new. length t = length c' \<and> colval t = colval c' \<and>
                      rowval c' \<le> rowval t \<and> rowval t < rowval endtop" by blast
    have "out = acc @ (cursor # new)" using new(1) by simp
    moreover have "\<forall>t\<in>set (cursor # new). length t = length cursor \<and> colval t = colval cursor \<and>
                      rowval cursor \<le> rowval t \<and> rowval t < rowval endtop"
      using new(2) le s by auto
    moreover have "rowval cursor \<le> rowval endtop" using le s by simp
    ultimately show ?thesis by blast
  qed
qed

lemma east_loop_cells:
  "east_loop bc tc endbot acc = Inr out \<Longrightarrow> length tc = length bc \<Longrightarrow>
   colval tc = colval bc \<Longrightarrow>
     colval bc \<le> colval endbot \<and>
     (\<exists>new. out = acc @ new \<and>
        (\<forall>t\<in>set new. length t = length bc \<and>
                      colval bc \<le> colval t \<and> colval t < colval endbot \<and>
                      rowval bc \<le> rowval t \<and> rowval t \<le> rowval tc))"
proof (induction bc tc endbot acc arbitrary: out rule: east_loop.induct)
  case (1 bc tc endbot acc)
  show ?case
  proof (cases "bc = endbot")
    case True
    with "1.prems"(1) have "out = acc" by (subst (asm) east_loop.simps) simp
    with True show ?thesis by simp
  next
    case False
    with "1.prems"(1) obtain endtop acc1 bc' tc' where
      n: "GetNorthBoxTag tc = Inr endtop" and nl: "north_loop bc endtop acc = Inr acc1"
      and eb: "GetEastBoxTag bc = Inr bc'" and et: "GetEastBoxTag tc = Inr tc'"
      and r: "east_loop bc' tc' endbot acc1 = Inr out"
      by (subst (asm) east_loop.simps) (auto split: sum.splits)
    from GetNorthBoxTag_step [OF n] have sn: "rowval endtop = Suc (rowval tc)" by simp
    from GetEastBoxTag_step [OF eb] have sb: "length bc' = length bc"
      "colval bc' = Suc (colval bc)" "rowval bc' = rowval bc" by simp_all
    from GetEastBoxTag_step [OF et] have st: "length tc' = length tc"
      "colval tc' = Suc (colval tc)" "rowval tc' = rowval tc" by simp_all
    from north_loop_rows [OF nl] obtain new1 where new1: "acc1 = acc @ new1"
      "\<forall>t\<in>set new1. length t = length bc \<and> colval t = colval bc \<and>
                     rowval bc \<le> rowval t \<and> rowval t < rowval endtop" by blast
    have "length tc' = length bc'" "colval tc' = colval bc'"
      using sb st "1.prems"(2,3) by simp_all
    from "1.IH" [OF False n nl eb et r this] obtain new2 where
      le: "colval bc' \<le> colval endbot" and new2: "out = acc1 @ new2"
        "\<forall>t\<in>set new2. length t = length bc' \<and>
                      colval bc' \<le> colval t \<and> colval t < colval endbot \<and>
                      rowval bc' \<le> rowval t \<and> rowval t \<le> rowval tc'" by blast
    have "out = acc @ (new1 @ new2)" using new1(1) new2(1) by simp
    moreover have "\<forall>t\<in>set (new1 @ new2). length t = length bc \<and>
                      colval bc \<le> colval t \<and> colval t < colval endbot \<and>
                      rowval bc \<le> rowval t \<and> rowval t \<le> rowval tc"
      using new1(2) new2(2) le sb st sn by auto
    moreover have "colval bc \<le> colval endbot" using le sb by simp
    ultimately show ?thesis by blast
  qed
qed

lemma cursor_ok_tagBox:
  assumes "cursor_ok d g" and "d \<le> 10"
  shows "tagBox (hash g) = cellBox d (rowval (hash g)) (colval (hash g))"
  using assms tagBox_cell [of "hash g"] by (simp add: cursor_ok_def)

lemma intersects_cell:
  assumes lo: "r1 \<le> r" "c1 \<le> c" and hi: "r \<le> r2" "c \<le> c2"
    and sw: "in_cell d r1 c1 (SW vb)"
    and nw: "in_cell d r2 c1' \<lparr>Lat = Lat (NE vb), Lng = Lng (SW vb)\<rparr>"
    and se: "in_cell d r1' c2 \<lparr>Lat = Lat (SW vb), Lng = Lng (NE vb)\<rparr>"
    and v: "valid_bounds vb"
  shows "intersects (cellBox d r c) vb"
proof -
  have "Lat (SW vb) \<le> Lat (NE (cellBox d r1 c1))" using sw by (simp add: in_cell_def)
  also have "\<dots> \<le> Lat (NE (cellBox d r c))" using lo(1) by (rule cell_lat_mono)
  finally have 1: "Lat (SW vb) \<le> Lat (NE (cellBox d r c))" .
  have "Lat (SW (cellBox d r c)) \<le> Lat (SW (cellBox d r2 c1'))" using hi(1) by (rule cell_lat_mono)
  also have "\<dots> \<le> Lat (NE vb)" using nw by (auto simp: in_cell_def split: if_splits)
  finally have 2: "Lat (SW (cellBox d r c)) \<le> Lat (NE vb)" .
  have "Lng (SW vb) \<le> Lng (NE (cellBox d r1 c1))" using sw by (simp add: in_cell_def)
  also have "\<dots> \<le> Lng (NE (cellBox d r c))" using lo(2) by (rule cell_lng_mono)
  finally have 3: "Lng (SW vb) \<le> Lng (NE (cellBox d r c))" .
  have "Lng (SW (cellBox d r c)) \<le> Lng (SW (cellBox d r1' c2))" using hi(2) by (rule cell_lng_mono)
  also have "\<dots> \<le> Lng (NE vb)" using se by (auto simp: in_cell_def split: if_splits)
  finally have 4: "Lng (SW (cellBox d r c)) \<le> Lng (NE vb)" .
  from v have 5: "Lat (SW vb) \<le> Lat (NE vb)" "Lng (SW vb) \<le> Lng (NE vb)"
    by (simp_all add: valid_bounds_def)
  from 1 2 3 4 5 cell_lo_le_hi [of d r c] show ?thesis by (simp add: intersects_def)
qed

lemma Descend_world:
  assumes ij: "i < 4" "j < 4"
    and w0: "Within p worldBox"
    and w: "Within p (cellBox 1 i j)"
    and rows: "\<forall>i'<i. Lat (NE (cellBox 1 i' 0)) < Lat p"
    and cols: "\<forall>j'<j. Lng (NE (cellBox 1 0 j')) < Lng p"
  shows "Descend \<lparr>hash = [], Box = worldBox, Point = p\<rparr> =
         Inr \<lparr>hash = CODES ! i ! j, Box = cellBox 1 i j, Point = p\<rparr>"
proof -
  let ?g = "\<lparr>hash = [], Box = worldBox, Point = p\<rparr>"
  have "Descend ?g =
    Inr (?g\<lparr>hash := hash ?g @ CODES ! i ! j, Box := cellBox (Suc 0) (4 * 0 + i) (4 * 0 + j)\<rparr>)"
    by (rule Descend_cell_eval [where r = 0 and c = 0])
       (use assms in \<open>simp_all add: worldBox_cell\<close>)
  then show ?thesis by simp
qed

lemma less_2: "(\<forall>k<2. P k) \<longleftrightarrow> P 0 \<and> P (Suc 0)"
  by (auto simp: less_Suc_eq numeral_2_eq_2)

lemma less_1: "(\<forall>k<Suc 0. P k) \<longleftrightarrow> P 0"
  by simp

lemma round64_20: "round64 20 = 20"
  by (rule round64_exact [where m = 20 and k = 0]) simp_all

lemma view10_descend_loop:
  "descend_loop view10
     (\<lparr>hash = [], Box = worldBox, Point = \<lparr>Lat = - 10, Lng = - 10\<rparr>\<rparr>,
      \<lparr>hash = [], Box = worldBox, Point = \<lparr>Lat = 10, Lng = 10\<rparr>\<rparr>,
      \<lparr>hash = [], Box = worldBox, Point = \<lparr>Lat = - 10, Lng = 10\<rparr>\<rparr>,
      \<lparr>hash = [], Box = worldBox, Point = \<lparr>Lat = 10, Lng = - 10\<rparr>\<rparr>) =
   Inr (\<lparr>hash = ''5'', Box = cellBox 1 1 1, Point = \<lparr>Lat = - 10, Lng = - 10\<rparr>\<rparr>,
        \<lparr>hash = ''A'', Box = cellBox 1 2 2, Point = \<lparr>Lat = 10, Lng = 10\<rparr>\<rparr>,
        \<lparr>hash = ''6'', Box = cellBox 1 1 2, Point = \<lparr>Lat = - 10, Lng = 10\<rparr>\<rparr>,
        \<lparr>hash = ''9'', Box = cellBox 1 2 1, Point = \<lparr>Lat = 10, Lng = - 10\<rparr>\<rparr>)"
proof -
  have s: "fsub (Lat (NE view10)) (Lat (SW view10)) = 20"
    "fsub (Lng (NE view10)) (Lng (SW view10)) = 20"
    by (simp_all add: view10_def fsub_def round64_20)
  have sw: "Descend \<lparr>hash = [], Box = worldBox, Point = \<lparr>Lat = - 10, Lng = - 10\<rparr>\<rparr> =
      Inr \<lparr>hash = CODES ! 1 ! 1, Box = cellBox 1 1 1, Point = \<lparr>Lat = - 10, Lng = - 10\<rparr>\<rparr>"
    by (rule Descend_world)
       (simp_all add: Within_def worldBox_cell cellBox_def)
  have ne: "Descend \<lparr>hash = [], Box = worldBox, Point = \<lparr>Lat = 10, Lng = 10\<rparr>\<rparr> =
      Inr \<lparr>hash = CODES ! 2 ! 2, Box = cellBox 1 2 2, Point = \<lparr>Lat = 10, Lng = 10\<rparr>\<rparr>"
    by (rule Descend_world)
       (simp_all add: Within_def worldBox_cell cellBox_def less_2)
  have se: "Descend \<lparr>hash = [], Box = worldBox, Point = \<lparr>Lat = - 10, Lng = 10\<rparr>\<rparr> =
      Inr \<lparr>hash = CODES ! 1 ! 2, Box = cellBox 1 1 2, Point = \<lparr>Lat = - 10, Lng = 10\<rparr>\<rparr>"
    by (rule Descend_world)
       (simp_all add: Within_def worldBox_cell cellBox_def less_2)
  have nw: "Descend \<lparr>hash = [], Box = worldBox, Point = \<lparr>Lat = 10, Lng = - 10\<rparr>\<rparr> =
      Inr \<lparr>hash = CODES ! 2 ! 1, Box = cellBox 1 2 1, Point = \<lparr>Lat = 10, Lng = - 10\<rparr>\<rparr>"
    by (rule Descend_world)
       (simp_all add: Within_def worldBox_cell cellBox_def less_2)
  have 2: "descend_loop view10 (sw, ne, se, nw) = Inr (sw, ne, se, nw)"
    if "GetDepth sw = 1" for sw ne se nw
    by (subst descend_loop.simps) (simp add: BOXSIZES_at_eq that s)
  show ?thesis
    by (subst descend_loop.simps)
       (simp add: BOXSIZES_at_eq GetDepth_def MAXDEPTH_def s sw ne se nw CODES_def 2)
qed

lemma view10_steps:
  "GetEastBoxTag ''6'' = Inr ''7''" "GetNorthBoxTag ''9'' = Inr ''D''"
  "GetNorthBoxTag ''5'' = Inr ''9''" "GetEastBoxTag ''5'' = Inr ''6''"
  "GetEastBoxTag ''9'' = Inr ''A''" "GetNorthBoxTag ''A'' = Inr ''E''"
  "GetNorthBoxTag ''6'' = Inr ''A''" "GetEastBoxTag ''A'' = Inr ''B''"
  by code_simp+

lemma view10_tags: "GeoBoxTagsFromViewBounds view10 = Inr [''5'', ''9'', ''6'', ''A'']"
proof -
  have n1: "north_loop ''5'' ''D'' [] = Inr [''5'', ''9'']"
    by (simp add: north_loop.simps view10_steps)
  have n2: "north_loop ''6'' ''E'' [''5'', ''9''] = Inr [''5'', ''9'', ''6'', ''A'']"
    by (simp add: north_loop.simps view10_steps)
  have e: "east_loop ''5'' ''9'' ''7'' [] = Inr [''5'', ''9'', ''6'', ''A'']"
    by (simp add: east_loop.simps view10_steps n1 n2)
  have "GeoBoxTagsFromViewBounds view10 =
    (case descend_loop view10
     (\<lparr>hash = [], Box = worldBox, Point = \<lparr>Lat = - 10, Lng = - 10\<rparr>\<rparr>,
      \<lparr>hash = [], Box = worldBox, Point = \<lparr>Lat = 10, Lng = 10\<rparr>\<rparr>,
      \<lparr>hash = [], Box = worldBox, Point = \<lparr>Lat = - 10, Lng = 10\<rparr>\<rparr>,
      \<lparr>hash = [], Box = worldBox, Point = \<lparr>Lat = 10, Lng = - 10\<rparr>\<rparr>) of
       Inl err \<Rightarrow> Inl err
     | Inr (sw, ne, se, nw) \<Rightarrow>
         if hash sw = hash ne then Inr [hash sw]
         else if length (hash sw) \<noteq> length (hash ne) \<or> length (hash sw) \<noteq> length (hash se) \<or>
                 length (hash sw) \<noteq> length (hash nw)
         then Inl DifferentDepths
         else (case GetEastBoxTag (hash se) of
                 Inl err \<Rightarrow> Inl err
               | Inr endbot \<Rightarrow> east_loop (hash sw) (hash nw) endbot []))"
    unfolding GeoBoxTagsFromViewBounds_def
    by (simp add: Let_def GetHash_def view10_def split: sum.splits prod.splits)
  also have "\<dots> = Inr [''5'', ''9'', ''6'', ''A'']"
    unfolding view10_descend_loop by (simp add: view10_steps e)
  finally show ?thesis .
qed

section \<open>The claims\<close>

text \<open>
  Claim C1. For every point with latitude in \<open>[-90, 90]\<close> and longitude in
  \<open>[-180, 180]\<close>, GenerateGeoBoxTags returns no error and leaves the entity with exactly
  ten tags; each of the tags 1 to 9 extends its predecessor by one character, and the
  last tag has length 10.
\<close>

theorem GenerateGeoBoxTags_ten_tags:
  assumes "- 90 \<le> Lat (Location l)" and "Lat (Location l) \<le> 90"
    and "- 180 \<le> Lng (Location l)" and "Lng (Location l) \<le> 180"
  shows "\<exists>ts. GenerateGeoBoxTags l = (l\<lparr>GeoBoxTags := ts\<rparr>, None) \<and>
              length ts = 10 \<and>
              (\<forall>i<9. \<exists>c. ts ! Suc i = ts ! i @ [c]) \<and>
              length (ts ! 9) = 10"
proof -
  from GenerateGeoBoxTags_chain [OF assms] obtain ts
    where g: "GenerateGeoBoxTags l = (l\<lparr>GeoBoxTags := ts\<rparr>, None)"
      and n: "length ts = 10" and ch: "ext_chain [] ts" by blast
  have "\<forall>i<9. \<exists>c. ts ! Suc i = ts ! i @ [c]"
    using ext_chain_step [OF ch] n by simp
  moreover have "length (ts ! 9) = 10"
    using ext_chain_length [OF ch, of 9] n by simp
  ultimately show ?thesis using g n by blast
qed

theorem GenerateGeoBoxTags_ten_tags_witness:
  "- 90 \<le> Lat (Location l_origin) \<and> Lat (Location l_origin) \<le> 90 \<and>
   - 180 \<le> Lng (Location l_origin) \<and> Lng (Location l_origin) \<le> 180 \<and>
   (\<exists>ts. GenerateGeoBoxTags l_origin = (l_origin\<lparr>GeoBoxTags := ts\<rparr>, None) \<and>
         length ts = 10 \<and>
         (\<forall>i<9. \<exists>c. ts ! Suc i = ts ! i @ [c]) \<and>
         length (ts ! 9) = 10)"
proof -
  have h: "- 90 \<le> Lat (Location l_origin)" "Lat (Location l_origin) \<le> 90"
    "- 180 \<le> Lng (Location l_origin)" "Lng (Location l_origin) \<le> 180"
    by (simp_all add: l_origin_def)
  from GenerateGeoBoxTags_ten_tags [OF h] h show ?thesis by blast
qed

text \<open>
  Claim C2, at a failing input. The condition of the descent loop reads
  \<^verbatim>\<open>BOXSIZES[swhasher.GetDepth()+1]\<close> before it tests \<^verbatim>\<open>swhasher.GetDepth() < MAXDEPTH\<close>.
  On bounds smaller than the cells of depth 10 the four hashers reach depth 10, the
  condition is evaluated once more and reads index 11 of the eleven entries.
\<close>

theorem tiny_bounds_index_panic:
  "GeoBoxTagsFromViewBounds tiny_bounds = Inl (IndexOutOfRange 11) \<and> length BOXSIZES = 11"
proof -
  have s: "fsub (Lat (NE tiny_bounds)) (Lat (SW tiny_bounds)) = 1 / 2 ^ 20"
    "fsub (Lng (NE tiny_bounds)) (Lng (SW tiny_bounds)) = 1 / 2 ^ 20"
    by (simp_all only: tiny_bounds_def fsub_def LatLngBounds.select_convs LatLng.select_convs
          diff_zero round64_tiny)
  have "GeoBoxTagsFromViewBounds tiny_bounds = Inl (IndexOutOfRange 11)"
  proof (rule GeoBoxTagsFromViewBounds_small)
    show "\<bar>fsub (Lat (NE tiny_bounds)) (Lat (SW tiny_bounds))\<bar> < 180 / 4 ^ 10"
      "\<bar>fsub (Lng (NE tiny_bounds)) (Lng (SW tiny_bounds))\<bar> < 360 / 4 ^ 10"
      unfolding s by simp_all
  qed (simp_all add: tiny_bounds_def)
  moreover have "length BOXSIZES = 11"
    unfolding BOXSIZES_def MAXDEPTH_def using init_BOXSIZES_eq [of 11] by simp
  ultimately show ?thesis by simp
qed

theorem tiny_bounds_index_panic_witness:
  "GeoBoxTagsFromViewBounds tiny_bounds = Inl (IndexOutOfRange (length BOXSIZES))"
  using tiny_bounds_index_panic by simp

text \<open>
  Claim C3, at a failing input. On bounds whose two corners are one point the same read
  of index 11 ends the call before any tag is returned.
\<close>

theorem point_bounds_index_panic:
  "GeoBoxTagsFromViewBounds point_bounds = Inl (IndexOutOfRange 11)"
  by (rule GeoBoxTagsFromViewBounds_small)
     (simp_all add: point_bounds_def fsub_def round64_def)

theorem point_bounds_index_panic_witness:
  "GeoBoxTagsFromViewBounds point_bounds \<noteq> Inr [''8E64BE0364'']"
  using point_bounds_index_panic by simp

text \<open>
  Claim C4, at the failing input. On the whole world the cells of depth 1 are not larger
  than the bounds, the loop does not descend, the hashes of the south-west and north-east
  corners are both empty and the call returns the empty tag alone.
\<close>

theorem GeoBoxTagsFromViewBounds_world:
  "GeoBoxTagsFromViewBounds world_bounds = Inr ['''']"
proof -
  have "descend_loop world_bounds (sw, ne, se, nw) = Inr (sw, ne, se, nw)"
    if "GetDepth sw = 0" for sw ne se nw
    by (subst descend_loop.simps)
       (simp add: BOXSIZES_at_eq that world_bounds_def fsub_def round64_180_360)
  then show ?thesis
    by (simp add: GeoBoxTagsFromViewBounds_def GetDepth_def GetHash_def Let_def)
qed

theorem GeoBoxTagsFromViewBounds_world_witness:
  "GeoBoxTagsFromViewBounds world_bounds \<noteq> Inr (concat CODES)"
  using GeoBoxTagsFromViewBounds_world by (simp add: CODES_def)

text \<open>
  Claim C5. For every valid bounds on which GeoBoxTagsFromViewBounds succeeds, degenerate
  or not, every tag of the returned list names a cell of the grid whose closed rectangle
  intersects the bounds. (\<open>Descend_tagBox\<close> shows that \<open>tagBox\<close> is the box of the
  Geohasher that produced the tag.)
\<close>

theorem GeoBoxTagsFromViewBounds_tags_intersect:
  assumes v: "valid_bounds vb" and ok: "GeoBoxTagsFromViewBounds vb = Inr tags"
  shows "\<forall>t\<in>set tags. intersects (tagBox t) vb"
proof -
  define pse where "pse = \<lparr>Lat = Lat (SW vb), Lng = Lng (NE vb)\<rparr>"
  define pnw where "pnw = \<lparr>Lat = Lat (NE vb), Lng = Lng (SW vb)\<rparr>"
  define sw0 where "sw0 = \<lparr>hash = [], Box = worldBox, Point = SW vb\<rparr>"
  define ne0 where "ne0 = \<lparr>hash = [], Box = worldBox, Point = NE vb\<rparr>"
  define se0 where "se0 = \<lparr>hash = [], Box = worldBox, Point = pse\<rparr>"
  define nw0 where "nw0 = \<lparr>hash = [], Box = worldBox, Point = pnw\<rparr>"
  from v have c0: "cursor_ok 0 sw0" "cursor_ok 0 ne0" "cursor_ok 0 se0" "cursor_ok 0 nw0"
    unfolding sw0_def ne0_def se0_def nw0_def pse_def pnw_def valid_bounds_def
    by (intro cursor_ok_world; simp)+
  have G: "GeoBoxTagsFromViewBounds vb =
    (case descend_loop vb (sw0, ne0, se0, nw0) of
       Inl err \<Rightarrow> Inl err
     | Inr (sw, ne, se, nw) \<Rightarrow>
         if hash sw = hash ne then Inr [hash sw]
         else if length (hash sw) \<noteq> length (hash ne) \<or> length (hash sw) \<noteq> length (hash se) \<or>
                 length (hash sw) \<noteq> length (hash nw)
         then Inl DifferentDepths
         else (case GetEastBoxTag (hash se) of
                 Inl err \<Rightarrow> Inl err
               | Inr endbot \<Rightarrow> east_loop (hash sw) (hash nw) endbot []))"
    unfolding GeoBoxTagsFromViewBounds_def sw0_def ne0_def se0_def nw0_def pse_def pnw_def
    by (simp add: Let_def GetHash_def split: sum.splits prod.splits)
  from ok G obtain sw ne se nw where
    dl: "descend_loop vb (sw0, ne0, se0, nw0) = Inr (sw, ne, se, nw)"
    by (auto split: sum.splits)
  from descend_loop_ok [OF c0 _ dl] obtain d where d: "d \<le> 10"
    and c: "cursor_ok d sw" "cursor_ok d ne" "cursor_ok d se" "cursor_ok d nw"
    and p: "Point sw = SW vb" "Point ne = NE vb" "Point se = pse" "Point nw = pnw"
    by (auto simp: sw0_def ne0_def se0_def nw0_def)
  have isw: "in_cell d (rowval (hash sw)) (colval (hash sw)) (SW vb)"
    and ise: "in_cell d (rowval (hash se)) (colval (hash se)) pse"
    and inw: "in_cell d (rowval (hash nw)) (colval (hash nw)) pnw"
    using c p by (simp_all add: cursor_ok_def)
  have len: "length (hash sw) = d" "length (hash ne) = d" "length (hash se) = d"
    "length (hash nw) = d"
    using c by (simp_all add: cursor_ok_def)
  have rows: "rowval (hash sw) \<le> rowval (hash nw)"
    using v by (intro in_cell_row_le [OF isw inw]) (simp add: pnw_def valid_bounds_def)
  have cols: "colval (hash sw) \<le> colval (hash se)"
    using v by (intro in_cell_col_le [OF isw ise]) (simp add: pse_def valid_bounds_def)
  have col_nw: "colval (hash nw) = colval (hash sw)"
    using in_cell_col_le [OF isw inw] in_cell_col_le [OF inw isw] by (simp add: pnw_def)
  show ?thesis
  proof (cases "hash sw = hash ne")
    case True
    with ok G dl have "tags = [hash sw]" by simp
    moreover have "intersects (cellBox d (rowval (hash sw)) (colval (hash sw))) vb"
      using _ _ _ _ isw inw [unfolded pnw_def] ise [unfolded pse_def] v
      by (rule intersects_cell) (simp_all add: rows cols)
    ultimately show ?thesis using cursor_ok_tagBox [OF c(1) d] by simp
  next
    case False
    with ok G dl len obtain endbot where e: "GetEastBoxTag (hash se) = Inr endbot"
      and el: "east_loop (hash sw) (hash nw) endbot [] = Inr tags"
      by (auto split: sum.splits)
    from GetEastBoxTag_step [OF e] have ce: "colval endbot = Suc (colval (hash se))" by simp
    from east_loop_cells [OF el] len col_nw have
      t: "\<forall>t\<in>set tags. length t = d \<and>
            colval (hash sw) \<le> colval t \<and> colval t < colval endbot \<and>
            rowval (hash sw) \<le> rowval t \<and> rowval t \<le> rowval (hash nw)"
      by auto
    show ?thesis
    proof
      fix t assume "t \<in> set tags"
      with t ce have l: "length t = d" and lo: "rowval (hash sw) \<le> rowval t"
        "colval (hash sw) \<le> colval t" and hi: "rowval t \<le> rowval (hash nw)"
        "colval t \<le> colval (hash se)" by auto
      have "intersects (cellBox d (rowval t) (colval t)) vb"
        using lo hi isw inw [unfolded pnw_def] ise [unfolded pse_def] v
        by (rule intersects_cell)
      moreover have "tagBox t = cellBox d (rowval t) (colval t)"
        using tagBox_cell [of t] l d by simp
      ultimately show "intersects (tagBox t) vb" by simp
    qed
  qed
qed

theorem GeoBoxTagsFromViewBounds_tags_intersect_witness:
  "valid_bounds view10 \<and>
   GeoBoxTagsFromViewBounds view10 = Inr [''5'', ''9'', ''6'', ''A''] \<and>
   intersects (tagBox ''5'') view10 \<and> intersects (tagBox ''9'') view10 \<and>
   intersects (tagBox ''6'') view10 \<and> intersects (tagBox ''A'') view10"
proof -
  have h: "valid_bounds view10" by (simp add: valid_bounds_def view10_def)
  from GeoBoxTagsFromViewBounds_tags_intersect [OF h view10_tags] h view10_tags
  show ?thesis by simp
qed

text \<open>
  Claim C6. A successful Descend selects a sub-cell \<open>(i, j)\<close> of the four by four grid
  that contains the point under the inclusive containment of Within, appends its one
  character code \<open>CODES ! i ! j\<close> to the hash and narrows the box to that sub-cell. The
  selected cell is the first one of the row-major scan: every sub-cell \<open>(i', j')\<close> that
  contains the point has \<open>i \<le> i'\<close> and \<open>j \<le> j'\<close>, so a point on a shared edge goes to
  the lower latitude band and the lower longitude band.
\<close>

theorem Descend_selects_first_sub_cell:
  assumes "Descend g = Inr g'"
  shows "\<exists>i j. i < 4 \<and> j < 4 \<and>
           hash g' = hash g @ CODES ! i ! j \<and> length (CODES ! i ! j) = 1 \<and>
           Box g' = sub_box (Box g) (latSpacing g) (lngSpacing g) i j \<and>
           Point g' = Point g \<and>
           Within (Point g) (Box g') \<and>
           (\<forall>i' j'. i' < 4 \<and> j' < 4 \<and>
                Within (Point g) (sub_box (Box g) (latSpacing g) (lngSpacing g) i' j')
                \<longrightarrow> i \<le> i' \<and> j \<le> j')"
proof -
  let ?W = "in_sub_box g (latSpacing g) (lngSpacing g)"
  from assms obtain i j where ij: "i < 4" "j < 4"
    and g': "g' = narrowed g (latSpacing g) (lngSpacing g) i j"
    and w: "?W i j" and rows: "\<forall>i'<i. \<forall>j'<4. \<not> ?W i' j'" and cols: "\<forall>j'<j. \<not> ?W i j'"
    unfolding Descend_Inr_iff by blast
  have least: "i \<le> i' \<and> j \<le> j'" if "i' < 4" "j' < 4" "?W i' j'" for i' j'
  proof
    show "i \<le> i'" using rows that by (meson not_le)
    have "?W i j'" using w that(3) unfolding in_sub_box_def by (rule Within_sub_box_mix)
    then show "j \<le> j'" using cols by (meson not_le)
  qed
  have "hash g' = hash g @ CODES ! i ! j" "Point g' = Point g"
    "Box g' = sub_box (Box g) (latSpacing g) (lngSpacing g) i j"
    by (simp_all add: g' narrowed_def)
  moreover from this w have "Within (Point g) (Box g')" by (simp add: in_sub_box_def)
  moreover have "length (CODES ! i ! j) = 1" using ij by (rule CODES_length)
  ultimately show ?thesis using ij least unfolding in_sub_box_def by blast
qed

theorem Descend_selects_first_sub_cell_witness:
  "Descend g_origin = Inr g_origin_5 \<and>
   (\<exists>i j. i < 4 \<and> j < 4 \<and>
      hash g_origin_5 = hash g_origin @ CODES ! i ! j \<and> length (CODES ! i ! j) = 1 \<and>
      Box g_origin_5 = sub_box (Box g_origin) (latSpacing g_origin) (lngSpacing g_origin) i j \<and>
      Point g_origin_5 = Point g_origin \<and>
      Within (Point g_origin) (Box g_origin_5) \<and>
      (\<forall>i' j'. i' < 4 \<and> j' < 4 \<and>
           Within (Point g_origin)
             (sub_box (Box g_origin) (latSpacing g_origin) (lngSpacing g_origin) i' j')
           \<longrightarrow> i \<le> i' \<and> j \<le> j'))"
proof -
  have h: "Descend g_origin = Inr g_origin_5"
    unfolding g_origin_5_def by (rule Descend_origin)
  from h Descend_selects_first_sub_cell [OF h] show ?thesis by (rule conjI)
qed

text \<open>
  Claim C7, as stated, fails: on a box that is not a cell of the grid the subtraction
  \<open>NE.Lat - SW.Lat\<close> rounds, the four rows no longer reach the northern edge of the box,
  and a point on that edge is within the box and within no sub-cell.
\<close>

theorem Descend_no_match_counterexample:
  "Within (Point g_skew) (Box g_skew) \<and> Descend g_skew = Inl NoMatchingSubBox"
proof -
  have w: "Within (Point g_skew) (Box g_skew)" by (simp add: g_skew_def Within_def)
  have "\<not> in_sub_box g_skew (latSpacing g_skew) (lngSpacing g_skew) i j" if "i < 4" for i j
  proof -
    have "Lat (NE (sub_box (Box g_skew) (1 / 4) (lngSpacing g_skew) i j)) \<le> 0"
      using that by (rule sub_box_skew)
    moreover have "0 < Lat (Point g_skew)" by (simp add: g_skew_def)
    ultimately show ?thesis unfolding in_sub_box_def latSpacing_skew Within_def by auto
  qed
  with w show ?thesis unfolding Descend_NoMatch_iff by blast
qed

text \<open>
  Claim C7, amended. For every Geohasher whose box is a cell of the grid at a depth from 0
  to 10 (the world box, or a box that Descend reaches from it) and whose point is within
  the box under inclusive containment, Descend does not return the no-matching-cell
  error; it succeeds.
\<close>

theorem Descend_cell_succeeds:
  assumes d: "d \<le> 10" and rc: "r < 4 ^ d" "c < 4 ^ d"
    and B: "Box g = cellBox d r c" and P: "Within (Point g) (Box g)"
  shows "Descend g \<noteq> Inl NoMatchingSubBox \<and> (\<exists>g'. Descend g = Inr g')"
proof -
  define x where "x = Lat (Point g)"
  define y where "y = Lng (Point g)"
  define L where "L = - 90 + real r * 180 / 4 ^ d"
  define M where "M = - 180 + real c * 360 / 4 ^ d"
  define s :: real where "s = 180 / 4 ^ Suc d"
  define w :: real where "w = 360 / 4 ^ Suc d"
  from P have "Lat (SW (cellBox d r c)) \<le> x" "x \<le> Lat (NE (cellBox d r c))"
    "Lng (SW (cellBox d r c)) \<le> y" "y \<le> Lng (NE (cellBox d r c))"
    unfolding B by (auto simp: Within_def x_def y_def split: if_splits)
  then have lo: "L \<le> x" "M \<le> y" and hi: "x \<le> L + 4 * s" "y \<le> M + 4 * w"
    unfolding cell_edges0 L_def M_def s_def w_def by simp_all
  from first_band [OF hi(1)] obtain i where i: "i < 4" "x \<le> L + real (i + 1) * s"
    "0 < i \<longrightarrow> L + real i * s < x" by blast
  from first_band [OF hi(2)] obtain j where j: "j < 4" "y \<le> M + real (j + 1) * w"
    "0 < j \<longrightarrow> M + real j * w < y" by blast
  have "L + real i * s \<le> x" using i(3) lo(1) by (cases "i = 0") simp_all
  moreover have "M + real j * w \<le> y" using j(3) lo(2) by (cases "j = 0") simp_all
  ultimately have "Within (Point g) (cellBox (Suc d) (4 * r + i) (4 * c + j))"
    using i(2) j(2)
    unfolding Within_def cell_edges x_def y_def L_def M_def s_def w_def by auto
  then have sw: "in_sub_box g (latSpacing g) (lngSpacing g) i j"
    unfolding in_sub_box_cell [OF d B rc i(1) j(1)] .
  then have 1: "Descend g \<noteq> Inl NoMatchingSubBox"
    unfolding Descend_NoMatch_iff using i(1) j(1) by blast
  have "Descend g \<noteq> Inl PointOutsideBox" using P by (simp add: Descend_outside_iff)
  with 1 Descend_cases [of g] show ?thesis by blast
qed

theorem Descend_cell_succeeds_witness:
  "(0::nat) \<le> 10 \<and> (0::nat) < 4 ^ 0 \<and> Box g_origin = cellBox 0 0 0 \<and>
   Within (Point g_origin) (Box g_origin) \<and>
   Descend g_origin \<noteq> Inl NoMatchingSubBox \<and> (\<exists>g'. Descend g_origin = Inr g')"
proof -
  have h1: "(0::nat) \<le> 10" and h2: "(0::nat) < 4 ^ 0" by simp_all
  have h3: "Box g_origin = cellBox 0 0 0" by (simp add: g_origin_def worldBox_cell)
  have h4: "Within (Point g_origin) (Box g_origin)"
    by (simp add: g_origin_def Within_def worldBox_cell cellBox_def)
  from Descend_cell_succeeds [OF h1 h2 h2 h3 h4] h1 h2 h3 h4 show ?thesis by blast
qed

text \<open>
  Claim C8. For a cell tag \<open>T\<close> of length 1 to 10 on which four successive applications
  of GetEastBoxTag succeed, the result \<open>T4\<close> has the length and the last character of
  \<open>T\<close>: the walk is back in the same cell of the immediate parent. Only the prefix above
  the last character differs, and it is the east neighbour of the prefix of \<open>T\<close>.
\<close>

theorem GetEastBoxTag_four_times:
  assumes "is_tag T" and "1 \<le> length T"
    and "GetEastBoxTag T = Inr T1" and "GetEastBoxTag T1 = Inr T2"
    and "GetEastBoxTag T2 = Inr T3" and "GetEastBoxTag T3 = Inr T4"
  shows "length T4 = length T \<and> last T4 = last T \<and>
         GetEastBoxTag (butlast T) = Inr (butlast T4)"
proof -
  from assms(2) have T: "T = butlast T @ [last T]" by (cases T rule: rev_cases) simp_all
  from assms(1) have "list_all (\<lambda>c. [c] \<in> set (concat CODES)) (butlast T @ [last T])"
    unfolding is_tag_def T [symmetric] by simp
  then have c: "[last T] \<in> set (concat CODES)" by simp
  have e1: "GetEastBoxTag (butlast T @ [last T]) = Inr T1" using assms(3) T by simp
  from GetEastBoxTag_four_snoc [OF c e1 assms(4) assms(5) assms(6)]
  obtain p' where p': "GetEastBoxTag (butlast T) = Inr p'" "T4 = p' @ [last T]" by blast
  from GetEastBoxTag_step [OF p'(1)] have "length T4 = length T"
    using p'(2) assms(2) by simp
  with p' show ?thesis by simp
qed

theorem GetEastBoxTag_four_times_witness:
  "is_tag ''00'' \<and> 1 \<le> length ''00'' \<and>
   GetEastBoxTag ''00'' = Inr ''01'' \<and> GetEastBoxTag ''01'' = Inr ''02'' \<and>
   GetEastBoxTag ''02'' = Inr ''03'' \<and> GetEastBoxTag ''03'' = Inr ''10'' \<and>
   length ''10'' = length ''00'' \<and> last ''10'' = last ''00'' \<and>
   GetEastBoxTag (butlast ''00'') = Inr (butlast ''10'')"
proof -
  have h1: "is_tag ''00''" by (simp add: is_tag_def MAXDEPTH_def CODES_def)
  have h2: "1 \<le> length ''00''" by simp
  have h3: "GetEastBoxTag ''00'' = Inr ''01''" by code_simp
  have h4: "GetEastBoxTag ''01'' = Inr ''02''" by code_simp
  have h5: "GetEastBoxTag ''02'' = Inr ''03''" by code_simp
  have h6: "GetEastBoxTag ''03'' = Inr ''10''" by code_simp
  from GetEastBoxTag_four_times [OF h1 h2 h3 h4 h5 h6] h1 h2 h3 h4 h5 h6
  show ?thesis by blast
qed

text \<open>
  Claim C9, as stated, fails: GenerateGeoBoxTags clears the tags of the entity before the
  first Descend, so a call that returns an error leaves an entity that had tags without
  them.
\<close>

theorem GenerateGeoBoxTags_error_clears_tags:
  "snd (GenerateGeoBoxTags l_far) = Some PointOutsideBox \<and>
   GeoBoxTags (fst (GenerateGeoBoxTags l_far)) \<noteq> GeoBoxTags l_far"
proof -
  have "\<not> Within (Location l_far) worldBox"
    by (simp add: l_far_def Within_def worldBox_cell cellBox_def)
  from GenerateGeoBoxTags_outside [OF this] show ?thesis by (simp add: l_far_def)
qed

text \<open>
  Claim C9, amended. Tag generation has no partial-success mode: a call either returns
  the point-outside-box error of the first Descend and leaves the entity with an empty
  tag list (the tags it had are cleared, none is attached), or returns no error and
  leaves the entity with exactly ten tags.
\<close>

theorem GenerateGeoBoxTags_all_or_cleared:
  "GenerateGeoBoxTags l = (l\<lparr>GeoBoxTags := []\<rparr>, Some PointOutsideBox) \<or>
   (\<exists>ts. GenerateGeoBoxTags l = (l\<lparr>GeoBoxTags := ts\<rparr>, None) \<and> length ts = 10)"
proof (cases "Within (Location l) worldBox")
  case False
  then show ?thesis by (simp add: GenerateGeoBoxTags_outside)
next
  case True
  then have "- 90 \<le> Lat (Location l)" "Lat (Location l) \<le> 90"
    "- 180 \<le> Lng (Location l)" "Lng (Location l) \<le> 180"
    by (auto simp: Within_def worldBox_cell cellBox_def split: if_splits)
  from GenerateGeoBoxTags_chain [OF this] show ?thesis by blast
qed

text \<open>
  Claim C10. Crossing the edge of the world at the top level is an error and not a
  wrap-around: GetNorthBoxTag on each one-character tag of the top row and GetEastBoxTag on
  each one-character tag of the rightmost column return the empty-tag error, raised by the
  recursive call on the empty parent prefix.
\<close>

theorem world_edge_is_EmptyTag_error:
  "GetNorthBoxTag ''C'' = Inl EmptyTag \<and> GetNorthBoxTag ''D'' = Inl EmptyTag \<and>
   GetNorthBoxTag ''E'' = Inl EmptyTag \<and> GetNorthBoxTag ''F'' = Inl EmptyTag \<and>
   GetEastBoxTag ''3'' = Inl EmptyTag \<and> GetEastBoxTag ''7'' = Inl EmptyTag \<and>
   GetEastBoxTag ''B'' = Inl EmptyTag \<and> GetEastBoxTag ''F'' = Inl EmptyTag"
  using GetNorthBoxTag_snoc [of "[]"] GetEastBoxTag_snoc [of "[]"]
  by (simp add: GetNorthBoxTag_Nil GetEastBoxTag_Nil ParseInt16_def codeOf_def)

end
